theory Spec2Isabelle
  imports Complex_Main
begin

section \<open>JavaScript values used by the visual\<close>

text \<open>
  The visual (src/src/visual.ts) computes with JavaScript numbers. They are modelled
  as exact rationals extended by the three non-finite values: rounding, overflow and
  the sign of zero are not modelled, everything else (NaN and the infinities coming
  out of a division by zero, NaN absorbing a sum) is as in the language.
\<close>

datatype jsnum = NaN | PInf | NInf | Fin rat

datatype error = TypeError

fun js_add :: "jsnum \<Rightarrow> jsnum \<Rightarrow> jsnum" where
  "js_add (Fin a) (Fin b) = Fin (a + b)"
| "js_add NaN _ = NaN"
| "js_add _ NaN = NaN"
| "js_add PInf NInf = NaN"
| "js_add NInf PInf = NaN"
| "js_add PInf _ = PInf"
| "js_add _ PInf = PInf"
| "js_add NInf _ = NInf"
| "js_add _ NInf = NInf"

fun js_div :: "jsnum \<Rightarrow> jsnum \<Rightarrow> jsnum" where
  "js_div (Fin a) (Fin b) =
     (if b \<noteq> 0 then Fin (a / b)
      else if a = 0 then NaN else if 0 < a then PInf else NInf)"
| "js_div NaN _ = NaN"
| "js_div _ NaN = NaN"
| "js_div (Fin a) PInf = Fin 0"
| "js_div (Fin a) NInf = Fin 0"
| "js_div PInf (Fin b) = (if 0 \<le> b then PInf else NInf)"
| "js_div NInf (Fin b) = (if 0 \<le> b then NInf else PInf)"
| "js_div PInf PInf = NaN"
| "js_div PInf NInf = NaN"
| "js_div NInf PInf = NaN"
| "js_div NInf NInf = NaN"

definition isNaN :: "jsnum \<Rightarrow> bool" where
  "isNaN x = (x = NaN)"

subsection \<open>parseFloat\<close>

definition isDigit :: "char \<Rightarrow> bool" where
  "isDigit c = (c \<in> set ''0123456789'')"

definition isWhiteSpace :: "char \<Rightarrow> bool" where
  "isWhiteSpace c = (of_char c \<in> {9, 10, 11, 12, 13, 32 :: nat})"

definition digitsVal :: "string \<Rightarrow> nat" where
  "digitsVal ds = foldl (\<lambda>a c. 10 * a + (of_char c - 48)) 0 ds"

definition stripSign :: "string \<Rightarrow> bool \<times> string" where
  "stripSign s =
     (case s of
        [] \<Rightarrow> (False, [])
      | c # r \<Rightarrow> if c = CHR ''-'' then (True, r) else if c = CHR ''+'' then (False, r) else (False, s))"

definition exponentOf :: "string \<Rightarrow> int" where
  "exponentOf s =
     (case s of
        [] \<Rightarrow> 0
      | c # r \<Rightarrow>
          if c = CHR ''e'' \<or> c = CHR ''E'' then
            (let (neg, d) = stripSign r; ds = takeWhile isDigit d
             in if ds = [] then 0 else if neg then - int (digitsVal ds) else int (digitsVal ds))
          else 0)"

text \<open>
  \<open>parseFloat\<close> on a string: leading white space, a sign, then \<open>Infinity\<close> or the
  longest decimal literal; NaN when there is none.
\<close>

definition parseFloat :: "string \<Rightarrow> jsnum" where
  "parseFloat s =
     (let (neg, u) = stripSign (dropWhile isWhiteSpace s)
      in if take 8 u = ''Infinity'' then (if neg then NInf else PInf)
         else
           let ip = takeWhile isDigit u;
               r1 = dropWhile isDigit u;
               (fp, r2) = (case r1 of
                             [] \<Rightarrow> ([], r1)
                           | c # r \<Rightarrow> if c = CHR ''.'' then (takeWhile isDigit r, dropWhile isDigit r)
                                      else ([], r1))
           in if ip = [] \<and> fp = [] then NaN
              else
                let m = (of_nat (digitsVal (ip @ fp)) :: rat) / 10 ^ length fp;
                    e = exponentOf r2;
                    v = (if 0 \<le> e then m * 10 ^ nat e else m / 10 ^ nat (- e))
                in Fin (if neg then - v else v))"

subsection \<open>Splitting a combined id at the delimiter\<close>

text \<open>
  \<open>combinedID.split('***')\<close>: the pieces between the leftmost, non-overlapping
  occurrences of the delimiter; the empty string splits into one empty piece.
\<close>

fun splitFrom :: "string \<Rightarrow> string \<Rightarrow> string list" where
  "splitFrom acc [] = [acc]"
| "splitFrom acc (c # cs) =
     (if c = CHR ''*'' \<and> take 2 cs = ''**'' then acc # splitFrom [] (drop 2 cs)
      else splitFrom (acc @ [c]) cs)"

definition split :: "string \<Rightarrow> string list" where
  "split s = splitFrom [] s"

section \<open>The data view\<close>

text \<open>
  A cell of a categorical column is text or null, a cell of a measure column a number
  or null; a read past the end of a column gives \<open>undefined\<close>. \<open>toString\<close> of null
  or of \<open>undefined\<close> raises a TypeError.
\<close>

datatype catval = CUndefined | CNull | CStr string

datatype mval = MUndefined | MNull | MNum jsnum

text \<open>
  A value held in a node's \<open>name\<close> or \<open>numberOfLeads\<close> or in a link's \<open>value\<close>.
\<close>

datatype jsval = Undefined | Null | Num jsnum | Str string

record category_column =
  cat_displayName :: string
  cat_values :: "catval list"

record measure_column =
  m_displayName :: string
  m_root :: bool
  m_values :: "mval list"

text \<open>
  \<open>dataView.categorical\<close>: each of the two column bags may be absent (\<open>None\<close> for
  \<open>undefined\<close>).
\<close>

record data_view =
  categories :: "category_column list option"
  valueColumns :: "measure_column list option"

text \<open>
  \<open>options.dataViews[0]\<close>, as \<open>update\<close> reads it and passes it to \<open>converter\<close>: it may
  be \<open>undefined\<close>, or a data view whose \<open>categorical\<close> is \<open>undefined\<close>; otherwise it is a
  data view with its categorical part.
\<close>

datatype view = ViewUndefined | CategoricalUndefined | View data_view

text \<open>\<open>column.values[r]\<close>\<close>

definition catAt :: "category_column \<Rightarrow> nat \<Rightarrow> catval" where
  "catAt col r = (if r < length (cat_values col) then cat_values col ! r else CUndefined)"

definition measureAt :: "measure_column \<Rightarrow> nat \<Rightarrow> mval" where
  "measureAt col r = (if r < length (m_values col) then m_values col ! r else MUndefined)"

fun toString :: "catval \<Rightarrow> error + string" where
  "toString (CStr s) = Inr s"
| "toString CNull = Inl TypeError"
| "toString CUndefined = Inl TypeError"

text \<open>The string a value becomes when it is appended to a string with \<open>+\<close>.\<close>

fun concatString :: "catval \<Rightarrow> string" where
  "concatString (CStr s) = s"
| "concatString CNull = ''null''"
| "concatString CUndefined = ''undefined''"

fun ofCat :: "catval \<Rightarrow> jsval" where
  "ofCat (CStr s) = Str s"
| "ofCat CNull = Null"
| "ofCat CUndefined = Undefined"

text \<open>\<open>parseFloat(v.toString())\<close>; the rendering of a number parses back to it.\<close>

fun parseFloatM :: "mval \<Rightarrow> error + jsnum" where
  "parseFloatM (MNum n) = Inr n"
| "parseFloatM MNull = Inl TypeError"
| "parseFloatM MUndefined = Inl TypeError"

fun parseFloatOf :: "jsval \<Rightarrow> error + jsnum" where
  "parseFloatOf (Num n) = Inr n"
| "parseFloatOf (Str s) = Inr (parseFloat s)"
| "parseFloatOf Null = Inl TypeError"
| "parseFloatOf Undefined = Inl TypeError"

text \<open>\<open>categories[l].values[r].toString()\<close>; a missing column raises as well.\<close>

definition catCell :: "category_column list \<Rightarrow> nat \<Rightarrow> nat \<Rightarrow> error + string" where
  "catCell cats l r = (if l < length cats then toString (catAt (cats ! l) r) else Inl TypeError)"

text \<open>\<open>parseFloat(values[c].values[r].toString())\<close>\<close>

definition measureCell :: "measure_column list \<Rightarrow> nat \<Rightarrow> nat \<Rightarrow> error + jsnum" where
  "measureCell ms c r = (if c < length ms then parseFloatM (measureAt (ms ! c) r) else Inl TypeError)"

text \<open>A \<open>for\<close> loop over a list of indices whose body may raise.\<close>

fun forEach :: "('a \<Rightarrow> 's \<Rightarrow> error + 's) \<Rightarrow> 'a list \<Rightarrow> 's \<Rightarrow> error + 's" where
  "forEach body [] s = Inr s"
| "forEach body (x # xs) s =
     (case body x s of Inl e \<Rightarrow> Inl e | Inr s' \<Rightarrow> forEach body xs s')"

section \<open>calAggregate\<close>

text \<open>
  The body of the inner loop of \<open>calAggregate\<close> (lines 249 to 256) for row \<open>iRow\<close>:
  the state is the pair of \<open>counter\<close> and \<open>sum\<close>.
\<close>

definition aggLevelStep ::
  "category_column list \<Rightarrow> measure_column list \<Rightarrow> string list \<Rightarrow> nat \<Rightarrow> nat \<Rightarrow>
   nat \<times> jsnum \<Rightarrow> error + nat \<times> jsnum" where
  "aggLevelStep cats ms hierarchyArray iRow iLevel cs =
     (case catCell cats iLevel iRow of
        Inl e \<Rightarrow> Inl e
      | Inr s \<Rightarrow>
          if s = hierarchyArray ! iLevel then
            (let counter = fst cs + 1
             in if counter = (length hierarchyArray - 1) + 1 then
                  (case measureCell ms 0 iRow of
                     Inl e \<Rightarrow> Inl e
                   | Inr v \<Rightarrow> Inr (counter, js_add (snd cs) v))
                else Inr (counter, snd cs))
          else Inr cs)"

definition aggRowStep ::
  "category_column list \<Rightarrow> measure_column list \<Rightarrow> string list \<Rightarrow> nat \<Rightarrow> jsnum \<Rightarrow> error + jsnum" where
  "aggRowStep cats ms hierarchyArray iRow sm =
     (case forEach (aggLevelStep cats ms hierarchyArray iRow)
             [0 ..< (length hierarchyArray - 1) + 1] (0, sm) of
        Inl e \<Rightarrow> Inl e
      | Inr cs \<Rightarrow> Inr (snd cs))"

definition aggTotalStep :: "measure_column list \<Rightarrow> nat \<Rightarrow> jsnum \<Rightarrow> error + jsnum" where
  "aggTotalStep ms iRow sm =
     (case measureCell ms 0 iRow of Inl e \<Rightarrow> Inl e | Inr v \<Rightarrow> Inr (js_add sm v))"

definition calAggregate ::
  "category_column list \<Rightarrow> measure_column list \<Rightarrow> string \<Rightarrow> nat \<Rightarrow> error + jsnum" where
  "calAggregate cats ms combinedID totalValues =
     (if combinedID \<noteq> ''none'' then
        forEach (aggRowStep cats ms (split combinedID)) [0 ..< totalValues] (Fin 0)
      else forEach (aggTotalStep ms) [0 ..< totalValues] (Fin 0))"

section \<open>Nodes, links and the state of a build\<close>

text \<open>
  The \<open>selectionId\<close> of a node. The root holds the array \<open>selection\<close> of row tokens
  (token \<open>j\<close> is the selection id built for row \<open>j\<close>), a hierarchy node holds an array
  of its own, a measure-stage node holds one element of \<open>selection\<close>, which is not an
  array. \<open>addSelection\<close> pushes onto these arrays either an element of \<open>selection\<close>
  or the \<open>selectionId\<close> of a later node; an array pushed in this way is shared, not
  copied, so it is recorded as \<open>Ref k\<close>, the array held by \<open>data.nodes[k]\<close>.
\<close>

datatype selelem = Tok nat | Und | Ref nat

datatype selection = SelArray "selelem list" | SelToken nat | SelUndefined

text \<open>
  Ids are the decimal strings of natural numbers (\<open>(this.idGen++).toString()\<close>) and
  are modelled by the numbers; so is \<open>group\<close>. The source of a link is such a string,
  or for a later measure stage the number \<open>this.measureIdGen - 1\<close> itself.
\<close>

record node =
  node_id :: nat
  program :: string
  name :: jsval
  group :: nat
  numberOfLeads :: jsval
  percentage :: jsnum
  description :: string
  color :: "string option"
  selectionId :: selection

record link =
  source :: nat
  target :: nat
  link_value :: jsval
  Activity :: string

record journey_data =
  nodes :: "node list"
  links :: "link list"

definition getDefaultData :: journey_data where
  "getDefaultData = \<lparr>nodes = [], links = []\<rparr>"

record legend_data_point =
  category :: string
  legend_color :: string

text \<open>
  The fields of the visual that \<open>converter\<close> sets once (\<open>build_env\<close>) and those that
  \<open>calNodesNLinks\<close> changes while it runs (\<open>build_state\<close>, with \<open>data\<close>).
\<close>

record build_env =
  catDataset :: "category_column list"
  measureData :: "measure_column list"
  totalValues :: nat
  measureDataLengthCount :: nat
  legendDataPoints :: "legend_data_point list"
  selectionTokens :: "selelem list"

record build_state =
  idGen :: nat
  measureIdGen :: nat
  selectionArrayIndex :: nat
  data :: journey_data

definition push_node :: "node \<Rightarrow> build_state \<Rightarrow> build_state" where
  "push_node n st = st\<lparr>data := (data st)\<lparr>nodes := nodes (data st) @ [n]\<rparr>\<rparr>"

definition push_link :: "link \<Rightarrow> build_state \<Rightarrow> build_state" where
  "push_link l st = st\<lparr>data := (data st)\<lparr>links := links (data st) @ [l]\<rparr>\<rparr>"

text \<open>\<open>selection[i]\<close>\<close>

definition selectionAt :: "selelem list \<Rightarrow> nat \<Rightarrow> selelem" where
  "selectionAt sel i = (if i < length sel then sel ! i else Und)"

fun selectionOf :: "selelem \<Rightarrow> selection" where
  "selectionOf (Tok j) = SelToken j"
| "selectionOf Und = SelUndefined"
| "selectionOf (Ref k) = SelUndefined"

section \<open>getDistinctElements\<close>

text \<open>
  \<open>self.indexOf(val) === i\<close> (line 233) on the cells of a categorical column.
  \<open>indexOf\<close> compares with \<open>===\<close>, which on text, null and \<open>undefined\<close>, the cells of
  \<open>catval\<close>, is equality; the functions are not used at any other type.
\<close>

fun indexOf :: "catval list \<Rightarrow> catval \<Rightarrow> nat option" where
  "indexOf [] v = None"
| "indexOf (x # xs) v = (if x = v then Some 0 else map_option Suc (indexOf xs v))"

definition getDistinctElements :: "catval \<Rightarrow> nat \<Rightarrow> catval list \<Rightarrow> bool" where
  "getDistinctElements val i self = (indexOf self val = Some i)"

text \<open>\<open>xs.filter(f)\<close> for a callback \<open>f(val, i, self)\<close>.\<close>

definition filter_js :: "('a \<Rightarrow> nat \<Rightarrow> 'a list \<Rightarrow> bool) \<Rightarrow> 'a list \<Rightarrow> 'a list" where
  "filter_js f xs = map fst (filter (\<lambda>(v, i). f v i xs) (zip xs [0 ..< length xs]))"

section \<open>calNodesNLinksColor\<close>

fun colorLoop :: "legend_data_point list \<Rightarrow> string \<Rightarrow> string option \<Rightarrow> string option" where
  "colorLoop [] s0 c = c"
| "colorLoop (p # ps) s0 c =
     (if s0 = category p then Some (legend_color p) else colorLoop ps s0 (Some ''#000''))"

definition calNodesNLinksColor :: "legend_data_point list \<Rightarrow> string list \<Rightarrow> string option" where
  "calNodesNLinksColor legend splitId = colorLoop legend (splitId ! 0) None"

section \<open>calNodesNLinks\<close>

text \<open>
  The test of lines 302 and 348, \<open>catDataset[cat].values[iRow].toString() === splitId[cat]\<close>:
  \<open>splitId[cat]\<close> is \<open>undefined\<close> past the end of \<open>splitId\<close>, and no string equals it.
\<close>

definition matchesAt :: "category_column list \<Rightarrow> string list \<Rightarrow> nat \<Rightarrow> nat \<Rightarrow> error + bool" where
  "matchesAt cats splitId iRow cat =
     (case catCell cats cat iRow of
        Inl e \<Rightarrow> Inl e
      | Inr s \<Rightarrow> Inr (cat < length splitId \<and> s = splitId ! cat))"

subsection \<open>The measure stages (lines 296 to 338)\<close>

text \<open>Line 309: \<open>isNaN(+v) ? '0' : v\<close>; \<open>+undefined\<close> is NaN and \<open>+null\<close> is 0.\<close>

fun measureValueOf :: "mval \<Rightarrow> jsval" where
  "measureValueOf MUndefined = Str ''0''"
| "measureValueOf MNull = Null"
| "measureValueOf (MNum n) = (if isNaN n then Str ''0'' else Num n)"

definition stagePercentage :: "measure_column list \<Rightarrow> nat \<Rightarrow> nat \<Rightarrow> jsval \<Rightarrow> error + jsnum" where
  "stagePercentage ms iCounter iRow measureValue =
     (if iCounter = 0 then Inr (Fin 1)
      else (case parseFloatOf measureValue of
              Inl e \<Rightarrow> Inl e
            | Inr a \<Rightarrow> (case measureCell ms (iCounter - 1) iRow of
                         Inl e \<Rightarrow> Inl e
                       | Inr b \<Rightarrow> Inr (js_div a b))))"

definition stageStep ::
  "build_env \<Rightarrow> nat \<Rightarrow> nat \<Rightarrow> string option \<Rightarrow> nat \<Rightarrow> nat \<Rightarrow> build_state \<Rightarrow> error + build_state" where
  "stageStep env level parentId col iRow iCounter st =
     (let m = measureData env ! iCounter
      in if \<not> m_root m then
           (let measureNewId = measureIdGen st + 1;
                st1 = st\<lparr>measureIdGen := measureNewId\<rparr>;
                measureValue = measureValueOf (measureAt m iRow)
            in case stagePercentage (measureData env) iCounter iRow measureValue of
                 Inl e \<Rightarrow> Inl e
               | Inr pct \<Rightarrow>
                   Inr (push_link
                          \<lparr>source = (if iCounter = 0 then parentId else measureIdGen st1 - 1),
                           target = measureNewId, link_value = measureValue, Activity = []\<rparr>
                          (push_node
                             \<lparr>node_id = measureNewId, program = m_displayName m,
                              name = Str (m_displayName m), group = level + 1,
                              numberOfLeads = measureValue, percentage = pct,
                              description = m_displayName m, color = col,
                              selectionId =
                                selectionOf (selectionAt (selectionTokens env) (selectionArrayIndex st1))\<rparr>
                             st1)))
         else Inr st)"

text \<open>
  The loop over \<open>cat\<close> of lines 301 to 335 for row \<open>iRow\<close>; the state is \<open>cnt\<close> and the
  build state.
\<close>

definition stageCatStep ::
  "build_env \<Rightarrow> string list \<Rightarrow> nat \<Rightarrow> nat \<Rightarrow> nat \<Rightarrow> nat \<Rightarrow> nat \<times> build_state \<Rightarrow>
   error + nat \<times> build_state" where
  "stageCatStep env splitId level parentId iRow cat cs =
     (case matchesAt (catDataset env) splitId iRow cat of
        Inl e \<Rightarrow> Inl e
      | Inr False \<Rightarrow> Inr cs
      | Inr True \<Rightarrow>
          (let cnt = fst cs + 1
           in if cnt = level then
                (case forEach (stageStep env level parentId
                                 (calNodesNLinksColor (legendDataPoints env) splitId) iRow)
                        [0 ..< length (measureData env)] (snd cs) of
                   Inl e \<Rightarrow> Inl e
                 | Inr st \<Rightarrow> Inr (cnt, st\<lparr>selectionArrayIndex := selectionArrayIndex st + 1\<rparr>))
              else Inr (cnt, snd cs)))"

definition stageRowStep ::
  "build_env \<Rightarrow> string list \<Rightarrow> nat \<Rightarrow> nat \<Rightarrow> nat \<Rightarrow> build_state \<Rightarrow> error + build_state" where
  "stageRowStep env splitId level parentId iRow st =
     (case forEach (stageCatStep env splitId level parentId iRow) [0 ..< level] (0, st) of
        Inl e \<Rightarrow> Inl e
      | Inr cs \<Rightarrow> Inr (snd cs))"

definition measureStages :: "build_env \<Rightarrow> string \<Rightarrow> nat \<Rightarrow> nat \<Rightarrow> build_state \<Rightarrow> error + build_state" where
  "measureStages env combinedID level parentId st =
     forEach (stageRowStep env (split combinedID) level parentId) [0 ..< totalValues env] st"

subsection \<open>The distinct values of a level (lines 340 to 354)\<close>

definition filterCatStep ::
  "category_column list \<Rightarrow> string list \<Rightarrow> nat \<Rightarrow> nat \<Rightarrow> nat \<Rightarrow> nat \<times> catval list \<Rightarrow>
   error + nat \<times> catval list" where
  "filterCatStep cats splitId level iRow cat cf =
     (case matchesAt cats splitId iRow cat of
        Inl e \<Rightarrow> Inl e
      | Inr False \<Rightarrow> Inr cf
      | Inr True \<Rightarrow>
          (let cnt = fst cf + 1
           in if cnt = level then Inr (cnt, snd cf @ [catAt (cats ! level) iRow])
              else Inr (cnt, snd cf)))"

definition filterRowStep ::
  "category_column list \<Rightarrow> string list \<Rightarrow> nat \<Rightarrow> nat \<Rightarrow> catval list \<Rightarrow> error + catval list" where
  "filterRowStep cats splitId level iRow filteredData =
     (case forEach (filterCatStep cats splitId level iRow) [0 ..< level] (0, filteredData) of
        Inl e \<Rightarrow> Inl e
      | Inr cf \<Rightarrow> Inr (snd cf))"

definition uniqueElements :: "build_env \<Rightarrow> string \<Rightarrow> nat \<Rightarrow> error + catval list" where
  "uniqueElements env combinedID level =
     (if combinedID \<noteq> [] then
        (case forEach (filterRowStep (catDataset env) (split combinedID) level)
                [0 ..< totalValues env] [] of
           Inl e \<Rightarrow> Inl e
         | Inr filteredData \<Rightarrow> Inr (filter_js getDistinctElements filteredData))
      else Inr (filter_js getDistinctElements (cat_values (catDataset env ! 0))))"

subsection \<open>One node per distinct value (lines 355 to 388)\<close>

fun nodeColorLoop ::
  "legend_data_point list \<Rightarrow> string \<Rightarrow> catval \<Rightarrow> string option \<Rightarrow> error + string option" where
  "nodeColorLoop [] s0 element c = Inr c"
| "nodeColorLoop (p # ps) s0 element c =
     (if category p = s0 then Inr (Some (legend_color p))
      else (case toString element of
              Inl e \<Rightarrow> Inl e
            | Inr s \<Rightarrow> if category p = s then Inr (Some (legend_color p))
                       else nodeColorLoop ps s0 element (Some ''#000'')))"

definition newCombinedIDOf :: "string \<Rightarrow> nat \<Rightarrow> catval \<Rightarrow> error + string" where
  "newCombinedIDOf combinedID level element =
     (if level = 0 then toString element
      else Inr (combinedID @ ''***'' @ concatString element))"

text \<open>
  \<open>calNodesNLinks\<close> and the callback of its \<open>forEach\<close> over \<open>uniqueElements\<close>. The
  callback reads \<open>catDataset[level].source\<close> (line 378), which raises when there is no
  such column.
\<close>

function calNodesNLinks ::
    "build_env \<Rightarrow> string \<Rightarrow> nat \<Rightarrow> nat \<Rightarrow> jsnum \<Rightarrow> build_state \<Rightarrow> error + build_state"
  and elementsLoop ::
    "build_env \<Rightarrow> string \<Rightarrow> nat \<Rightarrow> nat \<Rightarrow> jsnum \<Rightarrow> catval list \<Rightarrow> build_state \<Rightarrow> error + build_state"
where
  "calNodesNLinks env combinedID level parentId parentSum st =
     (if \<not> level < length (catDataset env) then
        (if length (measureData env) > 1 \<and> measureDataLengthCount env > 1
         then measureStages env combinedID level parentId st
         else Inr st)
      else (case uniqueElements env combinedID level of
              Inl e \<Rightarrow> Inl e
            | Inr els \<Rightarrow> elementsLoop env combinedID level parentId parentSum els st))"
| "elementsLoop env combinedID level parentId parentSum [] st = Inr st"
| "elementsLoop env combinedID level parentId parentSum (element # rest) st =
     (if level < length (catDataset env) then
        (case nodeColorLoop (legendDataPoints env) (split combinedID ! 0) element None of
           Inl e \<Rightarrow> Inl e
         | Inr col \<Rightarrow>
             (let newId = idGen st;
                  st1 = st\<lparr>idGen := idGen st + 1\<rparr>
              in case newCombinedIDOf combinedID level element of
                   Inl e \<Rightarrow> Inl e
                 | Inr newCombinedID \<Rightarrow>
                     (case calAggregate (catDataset env) (measureData env) newCombinedID
                             (totalValues env) of
                        Inl e \<Rightarrow> Inl e
                      | Inr calNumberOfLeads \<Rightarrow>
                          (case calNodesNLinks env newCombinedID (level + 1) newId calNumberOfLeads
                                  (push_node
                                     \<lparr>node_id = newId,
                                      program = cat_displayName (catDataset env ! level),
                                      name = ofCat element, group = level + 1,
                                      numberOfLeads = Num calNumberOfLeads,
                                      percentage = js_div calNumberOfLeads parentSum,
                                      description = newCombinedID, color = col,
                                      selectionId = SelArray []\<rparr>
                                     (push_link
                                        \<lparr>source = parentId, target = newId,
                                         link_value = Num calNumberOfLeads, Activity = []\<rparr>
                                        st1)) of
                             Inl e \<Rightarrow> Inl e
                           | Inr st2 \<Rightarrow>
                               elementsLoop env combinedID level parentId parentSum rest st2))))
      else Inl TypeError)"
  by pat_completeness auto
termination
  by (relation "measures
        [\<lambda>x. case x of
                Inl (env, cid, level, r) \<Rightarrow> Suc (length (catDataset env)) - level
              | Inr (env, cid, level, r) \<Rightarrow> Suc (length (catDataset env)) - level,
         \<lambda>x. case x of Inl _ \<Rightarrow> Suc 0 | Inr _ \<Rightarrow> 0,
         \<lambda>x. case x of
                Inl _ \<Rightarrow> 0
              | Inr (env, cid, level, pid, psum, els, st) \<Rightarrow> length els]")
     auto

declare calNodesNLinks.simps [simp del] elementsLoop.simps [simp del]

section \<open>addSelection\<close>

text \<open>\<open>data.nodes[i].selectionId.push(e)\<close>: only an array has \<open>push\<close>.\<close>

definition pushSel :: "node list \<Rightarrow> nat \<Rightarrow> selelem \<Rightarrow> error + node list" where
  "pushSel ns i e =
     (case selectionId (ns ! i) of
        SelArray xs \<Rightarrow> Inr (ns[i := (ns ! i)\<lparr>selectionId := SelArray (xs @ [e])\<rparr>])
      | SelToken j \<Rightarrow> Inl TypeError
      | SelUndefined \<Rightarrow> Inl TypeError)"

text \<open>\<open>data.nodes[k].selectionId\<close> as a value to push: an array is pushed by reference.\<close>

definition selRef :: "node list \<Rightarrow> nat \<Rightarrow> selelem" where
  "selRef ns k =
     (case selectionId (ns ! k) of
        SelArray xs \<Rightarrow> Ref k
      | SelToken j \<Rightarrow> Tok j
      | SelUndefined \<Rightarrow> Und)"

text \<open>\<open>catData[catLen - d].source.displayName\<close>, for \<open>1 \<le> d \<le> catLen\<close>.\<close>

definition levelName :: "category_column list \<Rightarrow> nat \<Rightarrow> string" where
  "levelName catData d = cat_displayName (catData ! (length catData - d))"

text \<open>Lines 518 to 524: the \<open>j\<close>-th node of the deepest level gets \<open>selection[j]\<close>.\<close>

definition leafStep ::
  "string \<Rightarrow> selelem list \<Rightarrow> nat \<Rightarrow> node list \<times> nat \<Rightarrow> error + node list \<times> nat" where
  "leafStep leaf sel iCounter nj =
     (if program (fst nj ! iCounter) = leaf then
        (case pushSel (fst nj) iCounter (selectionAt sel (snd nj)) of
           Inl e \<Rightarrow> Inl e
         | Inr ns \<Rightarrow> Inr (ns, snd nj + 1))
      else Inr nj)"

text \<open>
  The \<open>while\<close> loop of lines 531 to 537: \<open>++kCounter\<close> may run past the last node,
  where reading \<open>program\<close> raises.
\<close>

function whileStages ::
  "string \<Rightarrow> selelem \<Rightarrow> nat \<Rightarrow> nat \<Rightarrow> node list \<Rightarrow> error + node list" where
  "whileStages leaf tok nCounter kCounter ns =
     (let k = kCounter + 1
      in if \<not> k < length ns then Inl TypeError
         else if program (ns ! k) \<noteq> leaf then
           (case pushSel ns nCounter tok of
              Inl e \<Rightarrow> Inl e
            | Inr ns' \<Rightarrow> if k = length ns' - 1 then Inr ns' else whileStages leaf tok nCounter k ns')
         else Inr ns)"
  by pat_completeness auto
termination
  by (relation "measure (\<lambda>(leaf, tok, n, k, ns). length ns - k)")
     (auto simp: pushSel_def split: selection.splits)

declare whileStages.simps [simp del]

definition stagesStep ::
  "string \<Rightarrow> selelem list \<Rightarrow> nat \<Rightarrow> node list \<times> nat \<Rightarrow> error + node list \<times> nat" where
  "stagesStep leaf sel nCounter ny =
     (if program (fst ny ! nCounter) = leaf then
        (case whileStages leaf (selectionAt sel (snd ny)) nCounter nCounter (fst ny) of
           Inl e \<Rightarrow> Inl e
         | Inr ns \<Rightarrow> Inr (ns, snd ny + 1))
      else Inr ny)"

text \<open>The \<open>while\<close> loop of lines 571 to 577.\<close>

function whileChildren :: "string \<Rightarrow> nat \<Rightarrow> nat \<Rightarrow> node list \<Rightarrow> error + node list" where
  "whileChildren child iCounter kCounter ns =
     (let k = kCounter + 1
      in if \<not> k < length ns then Inl TypeError
         else if program (ns ! k) = child then
           (case pushSel ns iCounter (selRef ns k) of
              Inl e \<Rightarrow> Inl e
            | Inr ns' \<Rightarrow> if k = length ns' - 1 then Inr ns' else whileChildren child iCounter k ns')
         else Inr ns)"
  by pat_completeness auto
termination
  by (relation "measure (\<lambda>(child, i, k, ns). length ns - k)")
     (auto simp: pushSel_def split: selection.splits)

declare whileChildren.simps [simp del]

text \<open>
  The \<open>while\<close> loop of lines 586 to 595, and again of lines 614 to 623 and 641 to 650:
  up to the next node of the parent level, the arrays of the nodes of the child level
  are pushed.
\<close>

function whileUntil :: "string \<Rightarrow> string \<Rightarrow> nat \<Rightarrow> nat \<Rightarrow> node list \<Rightarrow> error + node list" where
  "whileUntil parent child iCounter mCounter ns =
     (let m = mCounter + 1
      in if \<not> m < length ns then Inl TypeError
         else if program (ns ! m) \<noteq> parent then
           (case (if program (ns ! m) = child then pushSel ns iCounter (selRef ns m) else Inr ns) of
              Inl e \<Rightarrow> Inl e
            | Inr ns' \<Rightarrow> if m = length ns' - 1 then Inr ns' else whileUntil parent child iCounter m ns')
         else Inr ns)"
  by pat_completeness auto
termination
  by (relation "measure (\<lambda>(parent, child, i, m, ns). length ns - m)")
     (auto simp: pushSel_def split: selection.splits if_splits)

declare whileUntil.simps [simp del]

definition childrenStep :: "string \<Rightarrow> string \<Rightarrow> nat \<Rightarrow> node list \<Rightarrow> error + node list" where
  "childrenStep parent child iCounter ns =
     (if program (ns ! iCounter) = parent then whileChildren child iCounter iCounter ns
      else Inr ns)"

definition untilStep :: "string \<Rightarrow> string \<Rightarrow> nat \<Rightarrow> node list \<Rightarrow> error + node list" where
  "untilStep parent child iCounter ns =
     (if program (ns ! iCounter) = parent then whileUntil parent child iCounter iCounter ns
      else Inr ns)"

definition catLen1 ::
  "category_column list \<Rightarrow> node list \<Rightarrow> nat \<Rightarrow> nat \<Rightarrow> error + node list" where
  "catLen1 catData ns measureDataLen flowCount =
     (if measureDataLen = 1 \<or> flowCount \<le> 1 then
        forEach (childrenStep (levelName catData 2) (levelName catData 1)) [1 ..< length ns] ns
      else forEach (untilStep (levelName catData 2) (levelName catData 1)) [1 ..< length ns] ns)"

definition catLen2 :: "category_column list \<Rightarrow> node list \<Rightarrow> error + node list" where
  "catLen2 catData ns =
     forEach (untilStep (levelName catData 3) (levelName catData 2)) [1 ..< length ns] ns"

definition catLen3 :: "category_column list \<Rightarrow> node list \<Rightarrow> error + node list" where
  "catLen3 catData ns =
     forEach (untilStep (levelName catData 4) (levelName catData 3)) [1 ..< length ns] ns"

text \<open>
  \<open>addSelection\<close>, called by \<open>converter\<close> with at least one category column.
  \<open>measureDataLen\<close> is \<open>this.dataViews.categorical.values.length\<close> and \<open>flowCount\<close> is
  \<open>this.measureDataLengthCount\<close>.
\<close>

definition addSelection ::
  "category_column list \<Rightarrow> nat \<Rightarrow> nat \<Rightarrow> journey_data \<Rightarrow> selelem list \<Rightarrow> error + journey_data" where
  "addSelection catData measureDataLen flowCount d sel =
     (let catLen = length catData
      in case (if measureDataLen = 1 \<or> flowCount \<le> 1 then
                 forEach (leafStep (levelName catData 1) sel) [1 ..< length (nodes d)] (nodes d, 0)
               else forEach (stagesStep (levelName catData 1) sel) [1 ..< length (nodes d)] (nodes d, 0)) of
           Inl e \<Rightarrow> Inl e
         | Inr nj \<Rightarrow>
             (case (if catLen > 1 then catLen1 catData (fst nj) measureDataLen flowCount
                    else Inr (fst nj)) of
                Inl e \<Rightarrow> Inl e
              | Inr ns1 \<Rightarrow>
                  (case (if catLen > 2 then catLen2 catData ns1 else Inr ns1) of
                     Inl e \<Rightarrow> Inl e
                   | Inr ns2 \<Rightarrow>
                       (case (if catLen > 3 then catLen3 catData ns2 else Inr ns2) of
                          Inl e \<Rightarrow> Inl e
                        | Inr ns3 \<Rightarrow> Inr (d\<lparr>nodes := ns3\<rparr>)))))"

section \<open>converter\<close>

text \<open>
  What \<open>converter\<close> and \<open>update\<close> take from the host and from the formatting utilities:
  the colour of the \<open>i\<close>-th legend entry (the palette colour of the category, or the
  user's override), the root text tailored to 140 pixels, the rendering of a number as a
  string, and, for line 690, the number of characters of
  \<open>parseInt(values.toString(), 10).toString()\<close> for the cells of a measure column.
\<close>

record host =
  legendColorOf :: "nat \<Rightarrow> string \<Rightarrow> string"
  getTailoredTextOrDefault :: "string \<Rightarrow> string"
  numberToString :: "jsnum \<Rightarrow> string"
  alternateFormatter :: "mval list \<Rightarrow> nat"

record root_settings =
  rootText :: string
  rootOption :: string
  rootColor :: string

text \<open>Lines 450 to 464: one legend entry per distinct value of the first column.\<close>

definition legendStep ::
  "host \<Rightarrow> catval list \<Rightarrow> nat \<Rightarrow> legend_data_point list \<Rightarrow> error + legend_data_point list" where
  "legendStep h catValues iIterator legend =
     (case toString (catValues ! iIterator) of
        Inl e \<Rightarrow> Inl e
      | Inr s \<Rightarrow> Inr (legend @ [\<lparr>category = s, legend_color = legendColorOf h iIterator s\<rparr>]))"

text \<open>\<open>values[c].values[r].toString()\<close> of a measure cell.\<close>

definition measureString :: "host \<Rightarrow> mval \<Rightarrow> error + string" where
  "measureString h v =
     (case v of MNum n \<Rightarrow> Inr (numberToString h n) | MNull \<Rightarrow> Inl TypeError
      | MUndefined \<Rightarrow> Inl TypeError)"

text \<open>Lines 473 to 482: the name of the root.\<close>

definition rootName :: "host \<Rightarrow> root_settings \<Rightarrow> measure_column list \<Rightarrow> nat \<Rightarrow> error + jsval" where
  "rootName h rs ms rootCount =
     (if rootCount = 1 then
        (let lastCol = ms ! (length ms - 1)
         in if rootOption rs = ''First'' then
              (case measureString h (measureAt lastCol 0) of
                 Inl e \<Rightarrow> Inl e | Inr s \<Rightarrow> Inr (Str s))
            else if rootOption rs = ''Last'' then
              (if m_values lastCol = [] then Inl TypeError
               else (case measureString h (measureAt lastCol (length (m_values lastCol) - 1)) of
                       Inl e \<Rightarrow> Inl e | Inr s \<Rightarrow> Inr (Str s)))
            else Inr Null)
      else Inr (Str (getTailoredTextOrDefault h (rootText rs))))"

definition maxMeasure :: nat where
  "maxMeasure = 10000000"

text \<open>
  The build up to the call of \<open>calNodesNLinks\<close> at line 483 and that call, for a data
  view that passed the test of line 401. The visual's \<open>dataViews\<close> is the data view
  \<open>update\<close> passes to \<open>converter\<close>.
\<close>

definition build ::
  "host \<Rightarrow> root_settings \<Rightarrow> category_column list \<Rightarrow> measure_column list \<Rightarrow>
   error + build_env \<times> build_state" where
  "build h rs cats ms =
     (let thisTotalValues = length (m_values (ms ! 0));
          totalValues' = length (cat_values (cats ! 0))
      in case calAggregate cats ms ''none'' totalValues' of
           Inl e \<Rightarrow> Inl e
         | Inr rootSum \<Rightarrow>
             (let len = max (length (cat_values (cats ! 0))) (length (m_values (ms ! 0)));
                  selection = map Tok [0 ..< len];
                  rootNode =
                    \<lparr>node_id = 0, program = getTailoredTextOrDefault h (rootText rs), name = Null,
                     group = 0, numberOfLeads = Num rootSum, percentage = Fin 1,
                     description = [], color = Some (rootColor rs),
                     selectionId = SelArray selection\<rparr>
              in case calAggregate cats ms ''none'' totalValues' of
                   Inl e \<Rightarrow> Inl e
                 | Inr rootLinkValue \<Rightarrow>
                     (let rootLink = \<lparr>source = 0, target = 0, link_value = Num rootLinkValue,
                                      Activity = []\<rparr>;
                          catValues = filter_js getDistinctElements (cat_values (cats ! 0))
                      in case forEach (legendStep h catValues) [0 ..< length catValues] [] of
                           Inl e \<Rightarrow> Inl e
                         | Inr legend \<Rightarrow>
                             (let rootCount = length (filter m_root ms);
                                  flowCount = length (filter (\<lambda>m. \<not> m_root m) ms)
                              in case rootName h rs ms rootCount of
                                   Inl e \<Rightarrow> Inl e
                                 | Inr nm \<Rightarrow>
                                     (let env = \<lparr>catDataset = cats, measureData = ms,
                                                 totalValues = thisTotalValues,
                                                 measureDataLengthCount = flowCount,
                                                 legendDataPoints = legend,
                                                 selectionTokens = selection\<rparr>;
                                          st = \<lparr>idGen = 1, measureIdGen = maxMeasure,
                                                selectionArrayIndex = 0,
                                                data = \<lparr>nodes = [rootNode\<lparr>name := nm\<rparr>],
                                                        links = [rootLink]\<rparr>\<rparr>
                                      in case calNodesNLinks env [] 0 0 rootSum st of
                                           Inl e \<Rightarrow> Inl e
                                         | Inr st' \<Rightarrow> Inr (env, st'))))))"

text \<open>
  The test of line 401: \<open>dataView && dataView.categorical && categories && categories.length > 0
  && values && values.length > 0\<close>; when it fails the default data, without nodes and
  links, is returned.
\<close>

definition converter :: "host \<Rightarrow> root_settings \<Rightarrow> view \<Rightarrow> error + journey_data" where
  "converter h rs v =
     (case v of
        ViewUndefined \<Rightarrow> Inr getDefaultData
      | CategoricalUndefined \<Rightarrow> Inr getDefaultData
      | View dataView \<Rightarrow>
          (case categories dataView of
             None \<Rightarrow> Inr getDefaultData
           | Some cats \<Rightarrow>
               (case valueColumns dataView of
                  None \<Rightarrow> Inr getDefaultData
                | Some ms \<Rightarrow>
                    if length cats > 0 \<and> length ms > 0 then
                      (case build h rs cats ms of
                         Inl e \<Rightarrow> Inl e
                       | Inr (env, st) \<Rightarrow>
                           addSelection cats (length ms) (measureDataLengthCount env) (data st)
                             (selectionTokens env))
                    else Inr getDefaultData)))"

section \<open>update\<close>

text \<open>
  What \<open>update\<close> shows and hands to the drawing code. \<open>errorMessage\<close> is the text of
  the \<open>errorMessage\<close> element, \<open>None\<close> while it is hidden (line 946 hides it).
  \<open>outcome\<close> is the graph of \<open>converter\<close> that is drawn, or the exception that the
  \<open>try\<close> of line 941 catches, after which \<open>renderingFailed\<close> is reported (line 1025).
  Line 949 reads \<open>dataView.categorical\<close> and line 952 reads \<open>categorical.categories\<close>, which
  raise for an undefined data view and for an undefined \<open>categorical\<close>, before any
  message is set. After \<open>converter\<close> has returned, \<open>updateHelperFunction\<close> calls
  \<open>displayLabelUnit\<close> (line 903), which reads \<open>categorical.values[0].values\<close> when the
  display unit of the labels is 0 (lines 689 and 690). The settings are parameters, and
  the drawing itself (d3) is not modelled.
\<close>

definition errorMessageCategory :: string where
  "errorMessageCategory = ''Please select Category Data.''"

definition errorMessageMeasure :: string where
  "errorMessageMeasure = ''Please select Measure Data.''"

definition errorMessageCategoryNull :: string where
  "errorMessageCategoryNull = ''Category value is null.''"

definition errorMessageMeasureNull :: string where
  "errorMessageMeasureNull = ''Measure value is null.''"

record label_settings =
  labelDisplayUnits :: nat

record update_result =
  errorMessage :: "string option"
  outcome :: "error + journey_data"

text \<open>Lines 952 to 969.\<close>

definition categoryMessage :: "data_view \<Rightarrow> string option \<Rightarrow> string option" where
  "categoryMessage dataView msg =
     (case categories dataView of
        None \<Rightarrow> Some errorMessageCategory
      | Some cats \<Rightarrow>
          if list_ex (\<lambda>c. list_ex (\<lambda>v. v = CNull) (cat_values c)) cats
          then Some errorMessageCategoryNull else msg)"

text \<open>Lines 970 to 987.\<close>

definition measureMessage :: "data_view \<Rightarrow> string option \<Rightarrow> string option" where
  "measureMessage dataView msg =
     (case valueColumns dataView of
        None \<Rightarrow> Some errorMessageMeasure
      | Some ms \<Rightarrow>
          if list_ex (\<lambda>m. list_ex (\<lambda>v. v = MNull) (m_values m)) ms
          then Some errorMessageMeasureNull else msg)"

text \<open>
  Lines 688 to 702: the unit of the labels; \<open>values[0].values\<close> raises when the measure
  bag is \<open>undefined\<close> or empty.
\<close>

definition displayLabelUnit :: "host \<Rightarrow> label_settings \<Rightarrow> data_view \<Rightarrow> nat \<Rightarrow> error + nat" where
  "displayLabelUnit h ls dataView secondaryFormatterVal =
     (if labelDisplayUnits ls = 0 then
        (case valueColumns dataView of
           None \<Rightarrow> Inl TypeError
         | Some ms \<Rightarrow>
             if ms = [] then Inl TypeError
             else (let a = alternateFormatter h (m_values (ms ! 0))
                   in Inr (if a > 9 then 1000000000
                           else if a \<le> 9 \<and> a > 6 then 1000000
                           else if a \<le> 6 \<and> a \<ge> 4 then 1000
                           else 10)))
      else Inr secondaryFormatterVal)"

definition update :: "host \<Rightarrow> root_settings \<Rightarrow> label_settings \<Rightarrow> view \<Rightarrow> update_result" where
  "update h rs ls v =
     (case v of
        ViewUndefined \<Rightarrow> \<lparr>errorMessage = None, outcome = Inl TypeError\<rparr>
      | CategoricalUndefined \<Rightarrow> \<lparr>errorMessage = None, outcome = Inl TypeError\<rparr>
      | View dataView \<Rightarrow>
          \<lparr>errorMessage = measureMessage dataView (categoryMessage dataView None),
           outcome =
             (case converter h rs v of
                Inl e \<Rightarrow> Inl e
              | Inr d \<Rightarrow>
                  (case displayLabelUnit h ls dataView 0 of
                     Inl e \<Rightarrow> Inl e
                   | Inr secondaryFormatterVal \<Rightarrow> Inr d))\<rparr>)"

section \<open>Notions used to state the properties\<close>

text \<open>A node without its \<open>selectionId\<close>, the one field \<open>addSelection\<close> changes.\<close>

definition stripSel :: "node \<Rightarrow> node" where
  "stripSel n = n\<lparr>selectionId := SelUndefined\<rparr>"

text \<open>
  Whether the data view lacks a categorical column, or a measure column: the bag is
  absent or empty (the test of line 401).
\<close>

definition lacksCategory :: "data_view \<Rightarrow> bool" where
  "lacksCategory dataView = (categories dataView = None \<or> categories dataView = Some [])"

definition lacksMeasure :: "data_view \<Rightarrow> bool" where
  "lacksMeasure dataView = (valueColumns dataView = None \<or> valueColumns dataView = Some [])"

subsection \<open>Example inputs\<close>

definition host0 :: host where
  "host0 = \<lparr>legendColorOf = (\<lambda>i s. ''#111''), getTailoredTextOrDefault = (\<lambda>s. s),
            numberToString = (\<lambda>n. ''n''), alternateFormatter = (\<lambda>vs. 1)\<rparr>"

definition labelSettings0 :: label_settings where
  "labelSettings0 = \<lparr>labelDisplayUnits = 0\<rparr>"

definition rootSettings0 :: root_settings where
  "rootSettings0 = \<lparr>rootText = ''Root'', rootOption = ''First'', rootColor = ''#000000''\<rparr>"

definition textColumn :: "string \<Rightarrow> string list \<Rightarrow> category_column" where
  "textColumn nm vs = \<lparr>cat_displayName = nm, cat_values = map CStr vs\<rparr>"

definition numberColumn :: "string \<Rightarrow> bool \<Rightarrow> rat list \<Rightarrow> measure_column" where
  "numberColumn nm r vs = \<lparr>m_displayName = nm, m_root = r, m_values = map (\<lambda>q. MNum (Fin q)) vs\<rparr>"

text \<open>
  A data view without a category bag, one whose category bag is empty, and one without
  a measure bag.
\<close>

definition dvNoCategory :: data_view where
  "dvNoCategory = \<lparr>categories = None, valueColumns = Some [numberColumn ''Sales'' False [10, 20]]\<rparr>"

definition dvEmptyCategory :: data_view where
  "dvEmptyCategory = \<lparr>categories = Some [], valueColumns = Some [numberColumn ''Sales'' False [10, 20]]\<rparr>"

definition dvNoMeasure :: data_view where
  "dvNoMeasure = \<lparr>categories = Some [textColumn ''Region'' [''US'', ''EU'']], valueColumns = None\<rparr>"

subsection \<open>The node and the link of lines 372 to 386\<close>

text \<open>
  The state after the callback of \<open>forEach\<close> has taken the id \<open>idGen st\<close> and pushed
  the link and the node of the element, before it calls \<open>calNodesNLinks\<close> again.
\<close>

definition hierPush ::
  "build_env \<Rightarrow> nat \<Rightarrow> nat \<Rightarrow> jsnum \<Rightarrow> catval \<Rightarrow> string option \<Rightarrow> string \<Rightarrow> jsnum \<Rightarrow>
   build_state \<Rightarrow> build_state" where
  "hierPush env level parentId parentSum element col newCombinedID a st =
     push_node
       \<lparr>node_id = idGen st, program = cat_displayName (catDataset env ! level),
        name = ofCat element, group = level + 1, numberOfLeads = Num a,
        percentage = js_div a parentSum, description = newCombinedID, color = col,
        selectionId = SelArray []\<rparr>
       (push_link
          \<lparr>source = parentId, target = idGen st, link_value = Num a, Activity = []\<rparr>
          (st\<lparr>idGen := idGen st + 1\<rparr>))"

subsection \<open>The kinds of node\<close>

text \<open>
  The root has group 0, the node of a categorical value at level \<open>l\<close> has group
  \<open>l + 1\<close>, and a measure-stage node has the group after the last category level.
\<close>

definition catCount :: "data_view \<Rightarrow> nat" where
  "catCount dataView = (case categories dataView of None \<Rightarrow> 0 | Some cats \<Rightarrow> length cats)"

definition isHierarchy :: "nat \<Rightarrow> node \<Rightarrow> bool" where
  "isHierarchy k n = (1 \<le> group n \<and> group n \<le> k)"

definition isStage :: "nat \<Rightarrow> node \<Rightarrow> bool" where
  "isStage k n = (group n = k + 1)"

definition hierarchyNodes :: "data_view \<Rightarrow> journey_data \<Rightarrow> node list" where
  "hierarchyNodes dataView d = filter (isHierarchy (catCount dataView)) (nodes d)"

definition stageNodes :: "data_view \<Rightarrow> journey_data \<Rightarrow> node list" where
  "stageNodes dataView d = filter (isStage (catCount dataView)) (nodes d)"

text \<open>What a run of \<open>calNodesNLinks\<close> keeps true of the ids, for \<open>k\<close> category columns.\<close>

definition idsOk :: "nat \<Rightarrow> build_state \<Rightarrow> bool" where
  "idsOk k st =
     (map node_id (filter (isHierarchy k) (nodes (data st))) = [1 ..< idGen st] \<and>
      map node_id (filter (isStage k) (nodes (data st))) = [Suc maxMeasure ..< Suc (measureIdGen st)] \<and>
      1 \<le> idGen st \<and> maxMeasure \<le> measureIdGen st \<and>
      (\<exists>r rest. nodes (data st) = r # rest \<and> group r = 0 \<and> node_id r = 0 \<and>
         list_all (\<lambda>n. isHierarchy k n \<or> isStage k n) rest))"

subsection \<open>The state in which converter calls calNodesNLinks\<close>

definition rowTokens :: "category_column list \<Rightarrow> measure_column list \<Rightarrow> selelem list" where
  "rowTokens cats ms =
     map Tok [0 ..< max (length (cat_values (cats ! 0))) (length (m_values (ms ! 0)))]"

definition envOf ::
  "category_column list \<Rightarrow> measure_column list \<Rightarrow> legend_data_point list \<Rightarrow> build_env" where
  "envOf cats ms legend =
     \<lparr>catDataset = cats, measureData = ms, totalValues = length (m_values (ms ! 0)),
      measureDataLengthCount = length (filter (\<lambda>m. \<not> m_root m) ms),
      legendDataPoints = legend, selectionTokens = rowTokens cats ms\<rparr>"

definition rootNodeOf ::
  "host \<Rightarrow> root_settings \<Rightarrow> category_column list \<Rightarrow> measure_column list \<Rightarrow> jsnum \<Rightarrow> jsval \<Rightarrow> node" where
  "rootNodeOf h rs cats ms rootSum nm =
     \<lparr>node_id = 0, program = getTailoredTextOrDefault h (rootText rs), name = nm, group = 0,
      numberOfLeads = Num rootSum, percentage = Fin 1, description = [],
      color = Some (rootColor rs), selectionId = SelArray (rowTokens cats ms)\<rparr>"

definition initialState ::
  "host \<Rightarrow> root_settings \<Rightarrow> category_column list \<Rightarrow> measure_column list \<Rightarrow> jsnum \<Rightarrow> jsval \<Rightarrow>
   build_state" where
  "initialState h rs cats ms rootSum nm =
     \<lparr>idGen = 1, measureIdGen = maxMeasure, selectionArrayIndex = 0,
      data = \<lparr>nodes = [rootNodeOf h rs cats ms rootSum nm],
              links = [\<lparr>source = 0, target = 0, link_value = Num rootSum, Activity = []\<rparr>]\<rparr>\<rparr>"

text \<open>Scenario A of the specification: one categorical column, one measure.\<close>

definition dvScenarioA :: data_view where
  "dvScenarioA =
     \<lparr>categories = Some [textColumn ''Region'' [''US'', ''US'', ''EU'']],
      valueColumns = Some [numberColumn ''Sales'' False [10, 20, 5]]\<rparr>"

definition dataScenarioA :: journey_data where
  "dataScenarioA =
     \<lparr>nodes =
        [\<lparr>node_id = 0, program = ''Root'', name = Str ''Root'', group = 0,
          numberOfLeads = Num (Fin 35), percentage = Fin 1, description = [],
          color = Some ''#000000'', selectionId = SelArray [Tok 0, Tok 1, Tok 2]\<rparr>,
         \<lparr>node_id = 1, program = ''Region'', name = Str ''US'', group = 1,
          numberOfLeads = Num (Fin 30), percentage = Fin (6 / 7), description = ''US'',
          color = Some ''#111'', selectionId = SelArray [Tok 0]\<rparr>,
         \<lparr>node_id = 2, program = ''Region'', name = Str ''EU'', group = 1,
          numberOfLeads = Num (Fin 5), percentage = Fin (1 / 7), description = ''EU'',
          color = Some ''#111'', selectionId = SelArray [Tok 1]\<rparr>],
      links =
        [\<lparr>source = 0, target = 0, link_value = Num (Fin 35), Activity = []\<rparr>,
         \<lparr>source = 0, target = 1, link_value = Num (Fin 30), Activity = []\<rparr>,
         \<lparr>source = 0, target = 2, link_value = Num (Fin 5), Activity = []\<rparr>]\<rparr>"

text \<open>Scenario C: one categorical column and two flow-stage measures on a single row.\<close>

definition dvFunnel :: data_view where
  "dvFunnel =
     \<lparr>categories = Some [textColumn ''Region'' [''X'']],
      valueColumns = Some [numberColumn ''A'' False [100], numberColumn ''B'' False [40]]\<rparr>"

definition dataFunnel :: journey_data where
  "dataFunnel =
     \<lparr>nodes =
        [\<lparr>node_id = 0, program = ''Root'', name = Str ''Root'', group = 0,
          numberOfLeads = Num (Fin 100), percentage = Fin 1, description = [],
          color = Some ''#000000'', selectionId = SelArray [Tok 0]\<rparr>,
         \<lparr>node_id = 1, program = ''Region'', name = Str ''X'', group = 1,
          numberOfLeads = Num (Fin 100), percentage = Fin 1, description = ''X'',
          color = Some ''#111'', selectionId = SelArray [Tok 0, Tok 0]\<rparr>,
         \<lparr>node_id = 10000001, program = ''A'', name = Str ''A'', group = 2,
          numberOfLeads = Num (Fin 100), percentage = Fin 1, description = ''A'',
          color = Some ''#111'', selectionId = SelToken 0\<rparr>,
         \<lparr>node_id = 10000002, program = ''B'', name = Str ''B'', group = 2,
          numberOfLeads = Num (Fin 40), percentage = Fin (2 / 5), description = ''B'',
          color = Some ''#111'', selectionId = SelToken 0\<rparr>],
      links =
        [\<lparr>source = 0, target = 0, link_value = Num (Fin 100), Activity = []\<rparr>,
         \<lparr>source = 0, target = 1, link_value = Num (Fin 100), Activity = []\<rparr>,
         \<lparr>source = 1, target = 10000001, link_value = Num (Fin 100), Activity = []\<rparr>,
         \<lparr>source = 10000001, target = 10000002, link_value = Num (Fin 40), Activity = []\<rparr>]\<rparr>"

subsection \<open>Parents\<close>

text \<open>
  \<open>p\<close> is a parent of \<open>n\<close> in the graph: a node one level up with a link to \<open>n\<close>.
\<close>

definition isParentOf :: "node list \<Rightarrow> link list \<Rightarrow> node \<Rightarrow> node \<Rightarrow> bool" where
  "isParentOf ns ls p n =
     (p \<in> set ns \<and> group p + 1 = group n \<and>
      list_ex (\<lambda>l. source l = node_id p \<and> target l = node_id n) ls)"

text \<open>The percentage of \<open>n\<close> is the quotient of its value by the value of \<open>p\<close>.\<close>

definition percentageOf :: "node \<Rightarrow> node \<Rightarrow> bool" where
  "percentageOf p n =
     (case (numberOfLeads n, numberOfLeads p) of
        (Num a, Num b) \<Rightarrow> percentage n = js_div a b
      | _ \<Rightarrow> False)"

text \<open>
  The description of \<open>n\<close>, its combined id, is its own value at the first level and
  the parent's combined id, the delimiter and its own value below.
\<close>

fun nameString :: "jsval \<Rightarrow> string" where
  "nameString (Str s) = s"
| "nameString Null = ''null''"
| "nameString Undefined = ''undefined''"
| "nameString (Num n) = []"

definition descriptionOf :: "node \<Rightarrow> node \<Rightarrow> bool" where
  "descriptionOf p n =
     (description n =
        (if group n = 1 then nameString (name n)
         else description p @ ''***'' @ nameString (name n)))"

definition childOf :: "node list \<Rightarrow> link list \<Rightarrow> node \<Rightarrow> node \<Rightarrow> bool" where
  "childOf ns ls p n = (isParentOf ns ls p n \<and> percentageOf p n \<and> descriptionOf p n)"

definition parentsOk :: "nat \<Rightarrow> node list \<Rightarrow> link list \<Rightarrow> bool" where
  "parentsOk k ns ls =
     list_all (\<lambda>n. isHierarchy k n \<longrightarrow> list_ex (\<lambda>p. childOf ns ls p n) ns) ns"

text \<open>A later state of a build has all the nodes and links of an earlier one, in front.\<close>

definition extends :: "build_state \<Rightarrow> build_state \<Rightarrow> bool" where
  "extends st st' = ((\<exists>ns. nodes (data st') = nodes (data st) @ ns) \<and>
                     (\<exists>ls. links (data st') = links (data st) @ ls))"

definition hasNode :: "build_state \<Rightarrow> nat \<Rightarrow> jsnum \<Rightarrow> nat \<Rightarrow> string \<Rightarrow> bool" where
  "hasNode st pid psum level cid =
     list_ex (\<lambda>p. node_id p = pid \<and> numberOfLeads p = Num psum \<and> group p = level \<and>
                    description p = cid) (nodes (data st))"

definition parentsOkSt :: "nat \<Rightarrow> build_state \<Rightarrow> bool" where
  "parentsOkSt k st = parentsOk k (nodes (data st)) (links (data st))"

text \<open>
  For finite values and a parent value other than 0 the quotient is the quotient of the
  rationals; for a parent value 0 it is NaN or an infinity.
\<close>

definition finiteQuotient :: "node \<Rightarrow> node \<Rightarrow> bool" where
  "finiteQuotient p n =
     (case (numberOfLeads n, numberOfLeads p) of
        (Num (Fin x), Num (Fin y)) \<Rightarrow> y \<noteq> 0 \<longrightarrow> percentage n = Fin (x / y)
      | _ \<Rightarrow> True)"

definition zeroParentQuotient :: "node \<Rightarrow> node \<Rightarrow> bool" where
  "zeroParentQuotient p n =
     (case (numberOfLeads n, numberOfLeads p) of
        (Num a, Num (Fin y)) \<Rightarrow>
          y = 0 \<longrightarrow>
          percentage n =
            (case a of
               Fin x \<Rightarrow> if x = 0 then NaN else if 0 < x then PInf else NInf
             | NaN \<Rightarrow> NaN | PInf \<Rightarrow> PInf | NInf \<Rightarrow> NInf)
      | _ \<Rightarrow> True)"

text \<open>A single row whose measure is 0.\<close>

definition dvZero :: data_view where
  "dvZero =
     \<lparr>categories = Some [textColumn ''Region'' [''a'']],
      valueColumns = Some [numberColumn ''Sales'' False [0]]\<rparr>"

definition dataZero :: journey_data where
  "dataZero =
     \<lparr>nodes =
        [\<lparr>node_id = 0, program = ''Root'', name = Str ''Root'', group = 0,
          numberOfLeads = Num (Fin 0), percentage = Fin 1, description = [],
          color = Some ''#000000'', selectionId = SelArray [Tok 0]\<rparr>,
         \<lparr>node_id = 1, program = ''Region'', name = Str ''a'', group = 1,
          numberOfLeads = Num (Fin 0), percentage = NaN, description = ''a'',
          color = Some ''#111'', selectionId = SelArray [Tok 0]\<rparr>],
      links =
        [\<lparr>source = 0, target = 0, link_value = Num (Fin 0), Activity = []\<rparr>,
         \<lparr>source = 0, target = 1, link_value = Num (Fin 0), Activity = []\<rparr>]\<rparr>"

subsection \<open>The sum over the rows that match a key\<close>

text \<open>
  Row \<open>r\<close> matches a key when, at every level of the key, its cell is the text of the
  key's component. \<open>rowSum\<close> adds the first measure column over the matching rows among
  the first \<open>n\<close>, in row order.
\<close>

definition rowMatches :: "category_column list \<Rightarrow> string list \<Rightarrow> nat \<Rightarrow> bool" where
  "rowMatches cats key r = list_all (\<lambda>l. catCell cats l r = Inr (key ! l)) [0 ..< length key]"

definition measureOf :: "measure_column list \<Rightarrow> nat \<Rightarrow> jsnum" where
  "measureOf ms r = (case measureCell ms 0 r of Inl e \<Rightarrow> NaN | Inr v \<Rightarrow> v)"

definition rowSum :: "category_column list \<Rightarrow> measure_column list \<Rightarrow> string list \<Rightarrow> nat \<Rightarrow> jsnum" where
  "rowSum cats ms key n =
     foldl js_add (Fin 0) (map (measureOf ms) (filter (rowMatches cats key) [0 ..< n]))"

text \<open>The combined id of a key: its components joined by the delimiter.\<close>

fun joinKey :: "string list \<Rightarrow> string" where
  "joinKey [] = []"
| "joinKey [c] = c"
| "joinKey (c # cs) = c @ ''***'' @ joinKey cs"

text \<open>
  The value of every node of a categorical value is what \<open>calAggregate\<close> returns for
  the node's combined id.
\<close>

definition aggregateOk ::
  "nat \<Rightarrow> category_column list \<Rightarrow> measure_column list \<Rightarrow> nat \<Rightarrow> node list \<Rightarrow> bool" where
  "aggregateOk k cats ms n ns =
     list_all (\<lambda>x. isHierarchy k x \<longrightarrow>
                 (case numberOfLeads x of
                    Num a \<Rightarrow> calAggregate cats ms (description x) n = Inr a
                  | _ \<Rightarrow> False)) ns"

text \<open>Scenario B of the specification: two categorical columns.\<close>

definition catsScenarioB :: "category_column list" where
  "catsScenarioB = [textColumn ''Region'' [''US'', ''US''], textColumn ''Area'' [''East'', ''West'']]"

definition msScenarioB :: "measure_column list" where
  "msScenarioB = [numberColumn ''Sales'' False [10, 20]]"

definition dvScenarioB :: data_view where
  "dvScenarioB = \<lparr>categories = Some catsScenarioB, valueColumns = Some msScenarioB\<rparr>"

definition dataScenarioB :: journey_data where
  "dataScenarioB =
     \<lparr>nodes =
        [\<lparr>node_id = 0, program = ''Root'', name = Str ''Root'', group = 0,
          numberOfLeads = Num (Fin 30), percentage = Fin 1, description = [],
          color = Some ''#000000'', selectionId = SelArray [Tok 0, Tok 1]\<rparr>,
         \<lparr>node_id = 1, program = ''Region'', name = Str ''US'', group = 1,
          numberOfLeads = Num (Fin 30), percentage = Fin 1, description = ''US'',
          color = Some ''#111'', selectionId = SelArray [Ref 2, Ref 3]\<rparr>,
         \<lparr>node_id = 2, program = ''Area'', name = Str ''East'', group = 2,
          numberOfLeads = Num (Fin 10), percentage = Fin (1 / 3), description = ''US***East'',
          color = Some ''#111'', selectionId = SelArray [Tok 0]\<rparr>,
         \<lparr>node_id = 3, program = ''Area'', name = Str ''West'', group = 2,
          numberOfLeads = Num (Fin 20), percentage = Fin (2 / 3), description = ''US***West'',
          color = Some ''#111'', selectionId = SelArray [Tok 1]\<rparr>],
      links =
        [\<lparr>source = 0, target = 0, link_value = Num (Fin 30), Activity = []\<rparr>,
         \<lparr>source = 0, target = 1, link_value = Num (Fin 30), Activity = []\<rparr>,
         \<lparr>source = 1, target = 2, link_value = Num (Fin 10), Activity = []\<rparr>,
         \<lparr>source = 1, target = 3, link_value = Num (Fin 20), Activity = []\<rparr>]\<rparr>"

text \<open>A table with a value that contains the delimiter.\<close>

definition catsDelimiter :: "category_column list" where
  "catsDelimiter = [textColumn ''Region'' [''a***b'', ''c''], textColumn ''Area'' [''x'', ''y'']]"

definition msDelimiter :: "measure_column list" where
  "msDelimiter = [numberColumn ''Sales'' False [10, 20]]"

definition dvDelimiter :: data_view where
  "dvDelimiter = \<lparr>categories = Some catsDelimiter, valueColumns = Some msDelimiter\<rparr>"

definition dataDelimiter :: journey_data where
  "dataDelimiter =
     \<lparr>nodes =
        [\<lparr>node_id = 0, program = ''Root'', name = Str ''Root'', group = 0,
          numberOfLeads = Num (Fin 30), percentage = Fin 1, description = [],
          color = Some ''#000000'', selectionId = SelArray [Tok 0, Tok 1]\<rparr>,
         \<lparr>node_id = 1, program = ''Region'', name = Str ''a***b'', group = 1,
          numberOfLeads = Num (Fin 0), percentage = Fin 0, description = ''a***b'',
          color = Some ''#111'', selectionId = SelArray []\<rparr>,
         \<lparr>node_id = 2, program = ''Region'', name = Str ''c'', group = 1,
          numberOfLeads = Num (Fin 20), percentage = Fin (2 / 3), description = ''c'',
          color = Some ''#111'', selectionId = SelArray [Ref 3]\<rparr>,
         \<lparr>node_id = 3, program = ''Area'', name = Str ''y'', group = 2,
          numberOfLeads = Num (Fin 20), percentage = Fin 1, description = ''c***y'',
          color = Some ''#111'', selectionId = SelArray [Tok 0]\<rparr>],
      links =
        [\<lparr>source = 0, target = 0, link_value = Num (Fin 30), Activity = []\<rparr>,
         \<lparr>source = 0, target = 1, link_value = Num (Fin 0), Activity = []\<rparr>,
         \<lparr>source = 0, target = 2, link_value = Num (Fin 20), Activity = []\<rparr>,
         \<lparr>source = 2, target = 3, link_value = Num (Fin 20), Activity = []\<rparr>]\<rparr>"

subsection \<open>First occurrences\<close>

text \<open>
  The values of a list in the order in which they are first seen: a value is kept
  where none of the values before it equals it.
\<close>

fun firstSeenFrom :: "'a list \<Rightarrow> 'a list \<Rightarrow> 'a list" where
  "firstSeenFrom seen [] = []"
| "firstSeenFrom seen (x # xs) =
     (if x \<in> set seen then firstSeenFrom seen xs else x # firstSeenFrom (seen @ [x]) xs)"

definition firstSeen :: "'a list \<Rightarrow> 'a list" where
  "firstSeen xs = firstSeenFrom [] xs"

subsection \<open>Tables for the order of the children\<close>

text \<open>
  Two categorical columns whose values are neither grouped nor sorted, with the graph
  the build produces for it; and a table whose first column has an empty text.
\<close>

definition catsOrder :: "category_column list" where
  "catsOrder = [textColumn ''Region'' [''US'', ''EU'', ''US'', ''US''],
                textColumn ''Area'' [''b'', ''x'', ''a'', ''b'']]"

definition msOrder :: "measure_column list" where
  "msOrder = [numberColumn ''Sales'' False [1, 2, 3, 4]]"

definition dvOrder :: data_view where
  "dvOrder = \<lparr>categories = Some catsOrder, valueColumns = Some msOrder\<rparr>"

definition dataOrder :: journey_data where
  "dataOrder =
     \<lparr>nodes =
        [\<lparr>node_id = 0, program = ''Root'', name = Str ''Root'', group = 0,
          numberOfLeads = Num (Fin 10), percentage = Fin 1, description = [],
          color = Some ''#000000'', selectionId = SelArray [Tok 0, Tok 1, Tok 2, Tok 3]\<rparr>,
         \<lparr>node_id = 1, program = ''Region'', name = Str ''US'', group = 1,
          numberOfLeads = Num (Fin 8), percentage = Fin (4 / 5), description = ''US'',
          color = Some ''#111'', selectionId = SelArray [Ref 2, Ref 3]\<rparr>,
         \<lparr>node_id = 2, program = ''Area'', name = Str ''b'', group = 2,
          numberOfLeads = Num (Fin 5), percentage = Fin (5 / 8), description = ''US***b'',
          color = Some ''#111'', selectionId = SelArray [Tok 0]\<rparr>,
         \<lparr>node_id = 3, program = ''Area'', name = Str ''a'', group = 2,
          numberOfLeads = Num (Fin 3), percentage = Fin (3 / 8), description = ''US***a'',
          color = Some ''#111'', selectionId = SelArray [Tok 1]\<rparr>,
         \<lparr>node_id = 4, program = ''Region'', name = Str ''EU'', group = 1,
          numberOfLeads = Num (Fin 2), percentage = Fin (1 / 5), description = ''EU'',
          color = Some ''#111'', selectionId = SelArray [Ref 5]\<rparr>,
         \<lparr>node_id = 5, program = ''Area'', name = Str ''x'', group = 2,
          numberOfLeads = Num (Fin 2), percentage = Fin 1, description = ''EU***x'',
          color = Some ''#111'', selectionId = SelArray [Tok 2]\<rparr>],
      links =
        [\<lparr>source = 0, target = 0, link_value = Num (Fin 10), Activity = []\<rparr>,
         \<lparr>source = 0, target = 1, link_value = Num (Fin 8), Activity = []\<rparr>,
         \<lparr>source = 1, target = 2, link_value = Num (Fin 5), Activity = []\<rparr>,
         \<lparr>source = 1, target = 3, link_value = Num (Fin 3), Activity = []\<rparr>,
         \<lparr>source = 0, target = 4, link_value = Num (Fin 2), Activity = []\<rparr>,
         \<lparr>source = 4, target = 5, link_value = Num (Fin 2), Activity = []\<rparr>]\<rparr>"

definition catsBlank :: "category_column list" where
  "catsBlank = [textColumn ''Region'' [[], ''b''], textColumn ''Area'' [''x'', ''y'']]"

definition msBlank :: "measure_column list" where
  "msBlank = [numberColumn ''Sales'' False [1, 2]]"

definition dvBlank :: data_view where
  "dvBlank = \<lparr>categories = Some catsBlank, valueColumns = Some msBlank\<rparr>"

definition dataBlank :: journey_data where
  "dataBlank =
     \<lparr>nodes =
        [\<lparr>node_id = 0, program = ''Root'', name = Str ''Root'', group = 0,
          numberOfLeads = Num (Fin 3), percentage = Fin 1, description = [],
          color = Some ''#000000'', selectionId = SelArray [Tok 0, Tok 1]\<rparr>,
         \<lparr>node_id = 1, program = ''Region'', name = Str [], group = 1,
          numberOfLeads = Num (Fin 1), percentage = Fin (1 / 3), description = [],
          color = Some ''#111'', selectionId = SelArray [Ref 2, Ref 3]\<rparr>,
         \<lparr>node_id = 2, program = ''Area'', name = Str [], group = 2,
          numberOfLeads = Num (Fin 0), percentage = Fin 0, description = ''***'',
          color = Some ''#111'', selectionId = SelArray [Tok 0]\<rparr>,
         \<lparr>node_id = 3, program = ''Area'', name = Str ''b'', group = 2,
          numberOfLeads = Num (Fin 0), percentage = Fin 0, description = ''***b'',
          color = Some ''#111'', selectionId = SelArray [Tok 1]\<rparr>,
         \<lparr>node_id = 4, program = ''Region'', name = Str ''b'', group = 1,
          numberOfLeads = Num (Fin 2), percentage = Fin (2 / 3), description = ''b'',
          color = Some ''#111'', selectionId = SelArray [Ref 5]\<rparr>,
         \<lparr>node_id = 5, program = ''Area'', name = Str ''y'', group = 2,
          numberOfLeads = Num (Fin 2), percentage = Fin 1, description = ''b***y'',
          color = Some ''#111'', selectionId = SelArray [Und]\<rparr>],
      links =
        [\<lparr>source = 0, target = 0, link_value = Num (Fin 3), Activity = []\<rparr>,
         \<lparr>source = 0, target = 1, link_value = Num (Fin 1), Activity = []\<rparr>,
         \<lparr>source = 1, target = 2, link_value = Num (Fin 0), Activity = []\<rparr>,
         \<lparr>source = 1, target = 3, link_value = Num (Fin 0), Activity = []\<rparr>,
         \<lparr>source = 0, target = 4, link_value = Num (Fin 2), Activity = []\<rparr>,
         \<lparr>source = 4, target = 5, link_value = Num (Fin 2), Activity = []\<rparr>]\<rparr>"

subsection \<open>A table whose first measure column has the root role\<close>

definition dvRootFirst :: data_view where
  "dvRootFirst =
     \<lparr>categories = Some [textColumn ''Region'' [''a'']],
      valueColumns = Some [numberColumn ''Total'' True [7], numberColumn ''Visits'' False [100],
                           numberColumn ''Orders'' False [40]]\<rparr>"

definition dataRootFirst :: journey_data where
  "dataRootFirst =
     \<lparr>nodes =
        [\<lparr>node_id = 0, program = ''Root'', name = Str ''n'', group = 0,
          numberOfLeads = Num (Fin 7), percentage = Fin 1, description = [],
          color = Some ''#000000'', selectionId = SelArray [Tok 0]\<rparr>,
         \<lparr>node_id = 1, program = ''Region'', name = Str ''a'', group = 1,
          numberOfLeads = Num (Fin 7), percentage = Fin 1, description = ''a'',
          color = Some ''#111'', selectionId = SelArray [Tok 0, Tok 0]\<rparr>,
         \<lparr>node_id = 10000001, program = ''Visits'', name = Str ''Visits'', group = 2,
          numberOfLeads = Num (Fin 100), percentage = Fin (100 / 7), description = ''Visits'',
          color = Some ''#111'', selectionId = SelToken 0\<rparr>,
         \<lparr>node_id = 10000002, program = ''Orders'', name = Str ''Orders'', group = 2,
          numberOfLeads = Num (Fin 40), percentage = Fin (2 / 5), description = ''Orders'',
          color = Some ''#111'', selectionId = SelToken 0\<rparr>],
      links =
        [\<lparr>source = 0, target = 0, link_value = Num (Fin 7), Activity = []\<rparr>,
         \<lparr>source = 0, target = 1, link_value = Num (Fin 7), Activity = []\<rparr>,
         \<lparr>source = 10000000, target = 10000001, link_value = Num (Fin 100), Activity = []\<rparr>,
         \<lparr>source = 10000001, target = 10000002, link_value = Num (Fin 40), Activity = []\<rparr>]\<rparr>"

subsection \<open>Tables with a null or a NaN\<close>

text \<open>
  Scenario D of the specification: a null categorical value at row 2 of 3; a table with
  a null measure value; and a table with a measure value that is NaN, with the graph
  the build produces for it.
\<close>

definition dvNullCategory :: data_view where
  "dvNullCategory =
     \<lparr>categories = Some [\<lparr>cat_displayName = ''Region'',
                           cat_values = [CStr ''a'', CNull, CStr ''b'']\<rparr>],
      valueColumns = Some [numberColumn ''Sales'' False [1, 2, 3]]\<rparr>"




subsection \<open>The selection ids\<close>

text \<open>
  \<open>touches i ns ns'\<close>: the node lists have the same length and differ at most at the
  index \<open>i\<close>. \<open>keeps S ns ns'\<close>: the lists agree but for the selection ids, and the
  first node and every node whose program is not among the names \<open>S\<close> are the same in
  both.
\<close>

definition touches :: "nat \<Rightarrow> node list \<Rightarrow> node list \<Rightarrow> bool" where
  "touches i ns ns' = (length ns' = length ns \<and> (\<forall>j. j \<noteq> i \<longrightarrow> ns' ! j = ns ! j))"

definition keeps :: "string set \<Rightarrow> node list \<Rightarrow> node list \<Rightarrow> bool" where
  "keeps S ns ns' =
     (map stripSel ns' = map stripSel ns \<and>
      (\<forall>j < length ns. j = 0 \<or> program (ns ! j) \<notin> S \<longrightarrow> ns' ! j = ns ! j))"

text \<open>
  A node of a categorical value as \<open>calNodesNLinks\<close> pushes it: its program is the
  display name of the column of its level and its selection array is empty.
\<close>

definition plainNode :: "category_column list \<Rightarrow> node \<Rightarrow> bool" where
  "plainNode cats n =
     (program n = cat_displayName (cats ! (group n - 1)) \<and> selectionId n = SelArray [])"

definition plainState :: "category_column list \<Rightarrow> build_state \<Rightarrow> bool" where
  "plainState cats st =
     list_all (\<lambda>n. isHierarchy (length cats) n \<longrightarrow> plainNode cats n) (nodes (data st))"

text \<open>
  The row tokens that the selection id of a node stands for: an array holds row tokens
  and arrays of other nodes, which are followed, at most as deep as there are nodes.
\<close>

fun tokensOf :: "nat \<Rightarrow> node list \<Rightarrow> selection \<Rightarrow> nat list" where
  "tokensOf 0 ns s = []"
| "tokensOf (Suc f) ns s =
     (case s of
        SelArray xs \<Rightarrow>
          concat (map (\<lambda>e. case e of Tok j \<Rightarrow> [j] | Und \<Rightarrow> []
                                | Ref k \<Rightarrow> tokensOf f ns (selectionId (ns ! k))) xs)
      | SelToken j \<Rightarrow> [j]
      | SelUndefined \<Rightarrow> [])"

definition selectionTokensOf :: "journey_data \<Rightarrow> node \<Rightarrow> nat list" where
  "selectionTokensOf d n = tokensOf (Suc (length (nodes d))) (nodes d) (selectionId n)"

text \<open>A table with five categorical columns and one row, and its graph.\<close>

definition dvDeep :: data_view where
  "dvDeep =
     \<lparr>categories = Some [textColumn ''L1'' [''a''], textColumn ''L2'' [''b''],
                          textColumn ''L3'' [''c''], textColumn ''L4'' [''d''],
                          textColumn ''L5'' [''e'']],
      valueColumns = Some [numberColumn ''Sales'' False [7]]\<rparr>"

definition dataDeep :: journey_data where
  "dataDeep =
     \<lparr>nodes =
        [\<lparr>node_id = 0, program = ''Root'', name = Str ''Root'', group = 0,
          numberOfLeads = Num (Fin 7), percentage = Fin 1, description = [],
          color = Some ''#000000'', selectionId = SelArray [Tok 0]\<rparr>,
         \<lparr>node_id = 1, program = ''L1'', name = Str ''a'', group = 1,
          numberOfLeads = Num (Fin 7), percentage = Fin 1, description = ''a'',
          color = Some ''#111'', selectionId = SelArray []\<rparr>,
         \<lparr>node_id = 2, program = ''L2'', name = Str ''b'', group = 2,
          numberOfLeads = Num (Fin 7), percentage = Fin 1, description = ''a***b'',
          color = Some ''#111'', selectionId = SelArray [Ref 3]\<rparr>,
         \<lparr>node_id = 3, program = ''L3'', name = Str ''c'', group = 3,
          numberOfLeads = Num (Fin 7), percentage = Fin 1, description = ''a***b***c'',
          color = Some ''#111'', selectionId = SelArray [Ref 4]\<rparr>,
         \<lparr>node_id = 4, program = ''L4'', name = Str ''d'', group = 4,
          numberOfLeads = Num (Fin 7), percentage = Fin 1, description = ''a***b***c***d'',
          color = Some ''#111'', selectionId = SelArray [Ref 5]\<rparr>,
         \<lparr>node_id = 5, program = ''L5'', name = Str ''e'', group = 5,
          numberOfLeads = Num (Fin 7), percentage = Fin 1, description = ''a***b***c***d***e'',
          color = Some ''#111'', selectionId = SelArray [Tok 0]\<rparr>],
      links =
        [\<lparr>source = 0, target = 0, link_value = Num (Fin 7), Activity = []\<rparr>,
         \<lparr>source = 0, target = 1, link_value = Num (Fin 7), Activity = []\<rparr>,
         \<lparr>source = 1, target = 2, link_value = Num (Fin 7), Activity = []\<rparr>,
         \<lparr>source = 2, target = 3, link_value = Num (Fin 7), Activity = []\<rparr>,
         \<lparr>source = 3, target = 4, link_value = Num (Fin 7), Activity = []\<rparr>,
         \<lparr>source = 4, target = 5, link_value = Num (Fin 7), Activity = []\<rparr>]\<rparr>"

subsection \<open>The order of the nodes and the passes over them\<close>

text \<open>
  \<open>calNodesNLinks\<close> pushes every node together with the link that enters it (lines 372
  to 386, and 310 to 331 for a flow stage), so the \<open>j\<close>-th link is the link into the
  \<open>j\<close>-th node. \<open>appended st st' new\<close>: the state \<open>st'\<close> is \<open>st\<close> with the pairs \<open>new\<close> of a
  node and its link pushed.
\<close>

definition appended :: "build_state \<Rightarrow> build_state \<Rightarrow> (node \<times> link) list \<Rightarrow> bool" where
  "appended st st' new =
     (nodes (data st') = nodes (data st) @ map fst new \<and>
      links (data st') = links (data st) @ map snd new)"

text \<open>
  The nodes are pushed depth first. \<open>nestedB k b pid new\<close>: in the list \<open>new\<close> every node
  lies at level \<open>b\<close> or below and its link enters it; the link of a node of a categorical
  value (a level up to \<open>k\<close>) comes from \<open>pid\<close> when the node lies at level \<open>b\<close>, and
  otherwise from a node one level up that precedes it in the list with only nodes of
  its own level or below in between.
\<close>

definition nestedAt :: "nat \<Rightarrow> nat \<Rightarrow> nat \<Rightarrow> (node \<times> link) list \<Rightarrow> nat \<Rightarrow> bool" where
  "nestedAt k b pid new q =
     (b \<le> group (fst (new ! q)) \<and> target (snd (new ! q)) = node_id (fst (new ! q)) \<and>
      (group (fst (new ! q)) \<le> k \<longrightarrow>
         (if group (fst (new ! q)) = b then source (snd (new ! q)) = pid
          else \<exists>p<q. group (fst (new ! p)) + 1 = group (fst (new ! q)) \<and>
                      source (snd (new ! q)) = node_id (fst (new ! p)) \<and>
                      (\<forall>t. p < t \<and> t < q \<longrightarrow> group (fst (new ! q)) \<le> group (fst (new ! t))))))"

definition nestedB :: "nat \<Rightarrow> nat \<Rightarrow> nat \<Rightarrow> (node \<times> link) list \<Rightarrow> bool" where
  "nestedB k b pid new = (\<forall>q<length new. nestedAt k b pid new q)"

text \<open>
  The nodes that \<open>calNodesNLinks\<close> pushes for the flow stages carry the display name of
  their measure, and there are none when the table has one measure or at most one flow
  stage.
\<close>

definition stagesNamed :: "build_env \<Rightarrow> build_state \<Rightarrow> bool" where
  "stagesNamed env st =
     list_all (\<lambda>n. (isStage (length (catDataset env)) n \<longrightarrow>
                      program n \<in> set (map m_displayName (measureData env))) \<and>
                   (\<not> (length (measureData env) > 1 \<and> measureDataLengthCount env > 1) \<longrightarrow>
                      group n \<le> length (catDataset env)))
       (nodes (data st))"

text \<open>
  The children of the \<open>i\<close>-th node: the indices of the nodes one level down whose link
  comes from it.
\<close>

definition childIndices :: "node list \<Rightarrow> link list \<Rightarrow> nat \<Rightarrow> nat list" where
  "childIndices ns ls i =
     filter (\<lambda>j. group (ns ! j) = group (ns ! i) + 1 \<and> source (ls ! j) = node_id (ns ! i))
       [0 ..< length ns]"

text \<open>
  What the loops of \<open>catLen1\<close>, \<open>catLen2\<close> and \<open>catLen3\<close> push onto the array of the node
  at \<open>m\<close>, read off the programs of the nodes: the nodes of the child level from \<open>m + 1\<close>
  up to the next node of the parent level (\<open>whileUntil\<close>), or the run of nodes of the
  child level that starts at \<open>m + 1\<close> (\<open>whileChildren\<close>).
\<close>

definition untilFrom :: "string \<Rightarrow> string \<Rightarrow> string list \<Rightarrow> nat \<Rightarrow> nat list" where
  "untilFrom parent child prog m =
     filter (\<lambda>j. prog ! j = child \<and> (\<forall>t. m < t \<and> t \<le> j \<longrightarrow> prog ! t \<noteq> parent))
       [Suc m ..< length prog]"

definition childrenFrom :: "string \<Rightarrow> string list \<Rightarrow> nat \<Rightarrow> nat list" where
  "childrenFrom child prog m =
     filter (\<lambda>j. \<forall>t. m < t \<and> t \<le> j \<longrightarrow> prog ! t = child) [Suc m ..< length prog]"

definition kidsOf :: "category_column list \<Rightarrow> bool \<Rightarrow> string list \<Rightarrow> nat \<Rightarrow> nat \<Rightarrow> nat list" where
  "kidsOf cats single prog q i =
     (if q = 1 \<and> single then childrenFrom (levelName cats 1) prog i
      else untilFrom (levelName cats (q + 1)) (levelName cats q) prog i)"

text \<open>
  A selection id that is an array; a node whose array has got references to the arrays
  of the nodes \<open>js\<close> pushed; a list of nodes in which this happened to node \<open>i\<close> only.
\<close>

definition isArr :: "node \<Rightarrow> bool" where
  "isArr n = (case selectionId n of SelArray xs \<Rightarrow> True | _ \<Rightarrow> False)"

definition pushedNode :: "node \<Rightarrow> nat list \<Rightarrow> node \<Rightarrow> bool" where
  "pushedNode n js n' =
     (case selectionId n of
        SelArray xs \<Rightarrow> n' = n\<lparr>selectionId := SelArray (xs @ map Ref js)\<rparr>
      | _ \<Rightarrow> False)"

definition pushed :: "node list \<Rightarrow> nat \<Rightarrow> nat list \<Rightarrow> node list \<Rightarrow> bool" where
  "pushed ns i js ns' = (pushedNode (ns ! i) js (ns' ! i) \<and> ns' = ns[i := ns' ! i])"

definition arrKeep :: "node list \<Rightarrow> node list \<Rightarrow> bool" where
  "arrKeep ns ns' = (length ns' = length ns \<and> (\<forall>j. isArr (ns ! j) \<longrightarrow> isArr (ns' ! j)))"

definition arrAll :: "category_column list \<Rightarrow> node list \<Rightarrow> bool" where
  "arrAll cats ns =
     (\<forall>j<length ns. 1 \<le> j \<and> program (ns ! j) \<in> set (map cat_displayName cats) \<longrightarrow> isArr (ns ! j))"

text \<open>
  A pass over the nodes \<open>1\<close> up to \<open>u\<close>: the nodes of the parent level among them have got
  their \<open>kids\<close> pushed, every other node is as before. And what the pass for the
  \<open>q\<close>-th level above the deepest one does, when there are that many levels.
\<close>

definition passed :: "string \<Rightarrow> (nat \<Rightarrow> nat list) \<Rightarrow> nat \<Rightarrow> node list \<Rightarrow> node list \<Rightarrow> bool" where
  "passed parent kids u ns ns' =
     (length ns' = length ns \<and>
      (\<forall>i<length ns. if 1 \<le> i \<and> i < u \<and> program (ns ! i) = parent
                      then pushedNode (ns ! i) (kids i) (ns' ! i) else ns' ! i = ns ! i))"

definition levelPass ::
  "category_column list \<Rightarrow> bool \<Rightarrow> nat \<Rightarrow> node list \<Rightarrow> node list \<Rightarrow> bool" where
  "levelPass cats single q ns ns' =
     (length ns' = length ns \<and> map program ns' = map program ns \<and>
      (\<forall>j<length ns. isArr (ns ! j) \<longrightarrow> isArr (ns' ! j)) \<and>
      (\<forall>j<length ns. 1 \<le> j \<longrightarrow>
         (if q < length cats \<and> program (ns ! j) = levelName cats (q + 1)
          then pushedNode (ns ! j) (kidsOf cats single (map program ns) q j) (ns' ! j)
          else ns' ! j = ns ! j)))"

text \<open>
  The program of a node tells its level, and the ids of the nodes of categorical values
  differ.
\<close>

definition levelled :: "category_column list \<Rightarrow> node list \<Rightarrow> bool" where
  "levelled cats ns =
     (\<forall>t<length ns. 1 \<le> t \<longrightarrow>
        (\<forall>r. 1 \<le> r \<and> r \<le> length cats \<longrightarrow>
           (program (ns ! t) = levelName cats r \<longleftrightarrow> group (ns ! t) + r = length cats + 1)))"

definition hierIds :: "nat \<Rightarrow> node list \<Rightarrow> bool" where
  "hierIds k ns =
     (\<forall>a<length ns. \<forall>b<length ns.
        isHierarchy k (ns ! a) \<and> isHierarchy k (ns ! b) \<and> node_id (ns ! a) = node_id (ns ! b) \<longrightarrow> a = b)"


section \<open>Loops and the frame of addSelection\<close>

lemma error_eq: "(e::error) = TypeError"
  by (cases e) simp

lemma forEach_append:
  "forEach f (xs @ ys) s = (case forEach f xs s of Inl e \<Rightarrow> Inl e | Inr s' \<Rightarrow> forEach f ys s')"
  by (induction xs arbitrary: s) (auto split: sum.splits)

lemma forEach_invariant:
  assumes "forEach f xs s = Inr s'" and "P s"
    and "\<And>x t t'. x \<in> set xs \<Longrightarrow> P t \<Longrightarrow> f x t = Inr t' \<Longrightarrow> P t'"
  shows "P s'"
  using assms
proof (induction xs arbitrary: s)
  case Nil
  then show ?case by simp
next
  case (Cons x xs)
  from Cons.prems(1) obtain t where t: "f x s = Inr t" and r: "forEach f xs t = Inr s'"
    by (auto split: sum.splits)
  have "P t" using Cons.prems(2,3) t by auto
  then show ?case using Cons.IH[OF r] Cons.prems(3) by auto
qed

lemma map_update_same: "f y = f (xs ! i) \<Longrightarrow> map f (xs[i := y]) = map f xs"
  by (cases "i < length xs") (simp_all add: map_update list_update_same_conv list_update_beyond)

lemma pushSel_strip: "pushSel ns i e = Inr ns' \<Longrightarrow> map stripSel ns' = map stripSel ns"
  by (auto simp: pushSel_def stripSel_def intro!: map_update_same split: selection.splits)

lemma pushSel_length: "pushSel ns i e = Inr ns' \<Longrightarrow> length ns' = length ns"
  by (auto simp: pushSel_def split: selection.splits)

lemma whileStages_strip:
  "whileStages leaf tok n k ns = Inr ns' \<Longrightarrow> map stripSel ns' = map stripSel ns"
proof (induction leaf tok n k ns rule: whileStages.induct)
  case (1 leaf tok nCounter kCounter ns)
  show ?case
    using "1.prems" "1.IH"
    by (subst (asm) whileStages.simps)
       (auto simp: Let_def dest: pushSel_strip split: if_splits sum.splits)
qed

lemma whileChildren_strip:
  "whileChildren child i k ns = Inr ns' \<Longrightarrow> map stripSel ns' = map stripSel ns"
proof (induction child i k ns rule: whileChildren.induct)
  case (1 child iCounter kCounter ns)
  show ?case
    using "1.prems" "1.IH"
    by (subst (asm) whileChildren.simps)
       (auto simp: Let_def dest: pushSel_strip split: if_splits sum.splits)
qed

lemma whileUntil_strip:
  "whileUntil parent child i k ns = Inr ns' \<Longrightarrow> map stripSel ns' = map stripSel ns"
proof (induction parent child i k ns rule: whileUntil.induct)
  case (1 parent child iCounter mCounter ns)
  show ?case
    using "1.prems" "1.IH"
    by (subst (asm) whileUntil.simps)
       (auto simp: Let_def dest: pushSel_strip split: if_splits sum.splits)
qed

lemma leafStep_strip:
  "leafStep leaf sel i nj = Inr nj' \<Longrightarrow> map stripSel (fst nj') = map stripSel (fst nj)"
  by (auto simp: leafStep_def dest: pushSel_strip split: if_splits sum.splits)

lemma stagesStep_strip:
  "stagesStep leaf sel i nj = Inr nj' \<Longrightarrow> map stripSel (fst nj') = map stripSel (fst nj)"
  by (auto simp: stagesStep_def dest: whileStages_strip split: if_splits sum.splits)

lemma untilStep_strip:
  "untilStep p c i ns = Inr ns' \<Longrightarrow> map stripSel ns' = map stripSel ns"
  by (auto simp: untilStep_def dest: whileUntil_strip split: if_splits)

lemma childrenStep_strip:
  "childrenStep p c i ns = Inr ns' \<Longrightarrow> map stripSel ns' = map stripSel ns"
  by (auto simp: childrenStep_def dest: whileChildren_strip split: if_splits)

lemma forEach_strip:
  assumes "forEach f xs s = Inr s'"
    and "\<And>x t t'. f x t = Inr t' \<Longrightarrow> map stripSel (g t') = map stripSel (g t)"
  shows "map stripSel (g s') = map stripSel (g s)"
  using assms(1)
proof (induction xs arbitrary: s)
  case Nil
  then show ?case by simp
next
  case (Cons x xs)
  from Cons.prems obtain t where t: "f x s = Inr t" and r: "forEach f xs t = Inr s'"
    by (auto split: sum.splits)
  show ?case using Cons.IH[OF r] assms(2)[OF t] by simp
qed

lemma addSelection_strip:
  assumes "addSelection catData mlen fc d sel = Inr d'"
  shows "map stripSel (nodes d') = map stripSel (nodes d) \<and> links d' = links d"
proof -
  let ?P = "\<lambda>ns. map stripSel ns = map stripSel (nodes d)"
  have leaf: "\<And>nj. forEach (leafStep (levelName catData 1) sel) [1 ..< length (nodes d)] (nodes d, 0) = Inr nj \<Longrightarrow> ?P (fst nj)"
    using forEach_strip[where g=fst, OF _ leafStep_strip] by fastforce
  have stages: "\<And>nj. forEach (stagesStep (levelName catData 1) sel) [1 ..< length (nodes d)] (nodes d, 0) = Inr nj \<Longrightarrow> ?P (fst nj)"
    using forEach_strip[where g=fst, OF _ stagesStep_strip] by fastforce
  have until: "\<And>p c ns ns'. forEach (untilStep p c) [1 ..< length ns] ns = Inr ns' \<Longrightarrow> ?P ns \<Longrightarrow> ?P ns'"
    using forEach_strip[where g="\<lambda>x. x", OF _ untilStep_strip] by fastforce
  have children: "\<And>p c ns ns'. forEach (childrenStep p c) [1 ..< length ns] ns = Inr ns' \<Longrightarrow> ?P ns \<Longrightarrow> ?P ns'"
    using forEach_strip[where g="\<lambda>x. x", OF _ childrenStep_strip] by fastforce
  from assms obtain nj ns1 ns2 where
    s0: "(if mlen = 1 \<or> fc \<le> 1 then
            forEach (leafStep (levelName catData 1) sel) [1 ..< length (nodes d)] (nodes d, 0)
          else forEach (stagesStep (levelName catData 1) sel) [1 ..< length (nodes d)] (nodes d, 0)) = Inr nj"
    and s1: "(if length catData > 1 then catLen1 catData (fst nj) mlen fc else Inr (fst nj)) = Inr ns1"
    and s2: "(if length catData > 2 then catLen2 catData ns1 else Inr ns1) = Inr ns2"
    and s3: "(if length catData > 3 then catLen3 catData ns2 else Inr ns2) = Inr (nodes d')"
    and l: "links d' = links d"
    unfolding addSelection_def Let_def
    by (auto split: sum.splits)
  have p0: "?P (fst nj)" using s0 leaf stages by (auto split: if_splits)
  have p1: "?P ns1" using s1 p0 until children by (auto simp: catLen1_def split: if_splits)
  have p2: "?P ns2" using s2 p1 until by (auto simp: catLen2_def split: if_splits)
  have p3: "?P (nodes d')" using s3 p2 until by (auto simp: catLen3_def split: if_splits)
  show ?thesis using p3 l by simp
qed

text \<open>The rules that evaluate the model on a concrete data view.\<close>

lemmas eval_rules =
  converter_def build_def calAggregate_def aggTotalStep_def aggRowStep_def aggLevelStep_def
  measureCell_def catCell_def measureAt_def catAt_def split_def filter_js_def
  getDistinctElements_def legendStep_def rootName_def measureString_def uniqueElements_def
  newCombinedIDOf_def push_node_def push_link_def addSelection_def leafStep_def pushSel_def
  selRef_def levelName_def selectionAt_def catLen1_def catLen2_def catLen3_def childrenStep_def
  untilStep_def stagesStep_def measureStages_def stageRowStep_def stageCatStep_def stageStep_def
  stagePercentage_def matchesAt_def filterRowStep_def filterCatStep_def calNodesNLinksColor_def
  maxMeasure_def getDefaultData_def isNaN_def upt_conv_Cons Let_def
  calNodesNLinks.simps elementsLoop.simps whileStages.simps whileChildren.simps whileUntil.simps
  host0_def rootSettings0_def textColumn_def numberColumn_def

section \<open>Induction over a run of calNodesNLinks\<close>

lemma calNodesNLinks_leaf:
  "\<not> level < length (catDataset env) \<Longrightarrow>
   calNodesNLinks env cid level pid psum st =
     (if length (measureData env) > 1 \<and> measureDataLengthCount env > 1
      then measureStages env cid level pid st else Inr st)"
  by (simp add: calNodesNLinks.simps)

lemma calNodesNLinks_node:
  "level < length (catDataset env) \<Longrightarrow>
   calNodesNLinks env cid level pid psum st =
     (case uniqueElements env cid level of
        Inl e \<Rightarrow> Inl e
      | Inr els \<Rightarrow> elementsLoop env cid level pid psum els st)"
  by (simp add: calNodesNLinks.simps)

lemma elementsLoop_Cons_Inr:
  assumes "elementsLoop env cid level pid psum (element # rest) st = Inr st'"
  obtains col newCid a st2 where
    "level < length (catDataset env)"
    "nodeColorLoop (legendDataPoints env) (split cid ! 0) element None = Inr col"
    "newCombinedIDOf cid level element = Inr newCid"
    "calAggregate (catDataset env) (measureData env) newCid (totalValues env) = Inr a"
    "calNodesNLinks env newCid (level + 1) (idGen st) a
       (hierPush env level pid psum element col newCid a st) = Inr st2"
    "elementsLoop env cid level pid psum rest st2 = Inr st'"
  using assms
  by (subst (asm) elementsLoop.simps)
     (auto simp: Let_def hierPush_def split: if_splits sum.splits)

lemma calNodesNLinks_run_induct [consumes 1, case_names leaf node nil cons]:
  assumes run: "calNodesNLinks env cid level pid psum st = Inr st'"
    and leaf: "\<And>cid level pid psum st st'.
        \<not> level < length (catDataset env) \<Longrightarrow>
        (if length (measureData env) > 1 \<and> measureDataLengthCount env > 1
         then measureStages env cid level pid st else Inr st) = Inr st' \<Longrightarrow>
        P cid level pid psum st st'"
    and node: "\<And>cid level pid psum st els st'.
        level < length (catDataset env) \<Longrightarrow>
        uniqueElements env cid level = Inr els \<Longrightarrow>
        elementsLoop env cid level pid psum els st = Inr st' \<Longrightarrow>
        Q cid level pid psum els st st' \<Longrightarrow>
        P cid level pid psum st st'"
    and nil: "\<And>cid level pid psum st. Q cid level pid psum [] st st"
    and cons: "\<And>cid level pid psum element rest st col newCid a st2 st'.
        level < length (catDataset env) \<Longrightarrow>
        nodeColorLoop (legendDataPoints env) (split cid ! 0) element None = Inr col \<Longrightarrow>
        newCombinedIDOf cid level element = Inr newCid \<Longrightarrow>
        calAggregate (catDataset env) (measureData env) newCid (totalValues env) = Inr a \<Longrightarrow>
        calNodesNLinks env newCid (level + 1) (idGen st) a
          (hierPush env level pid psum element col newCid a st) = Inr st2 \<Longrightarrow>
        P newCid (level + 1) (idGen st) a (hierPush env level pid psum element col newCid a st) st2 \<Longrightarrow>
        elementsLoop env cid level pid psum rest st2 = Inr st' \<Longrightarrow>
        Q cid level pid psum rest st2 st' \<Longrightarrow>
        Q cid level pid psum (element # rest) st st'"
  shows "P cid level pid psum st st'"
proof -
  have "(\<forall>st'. e = env \<longrightarrow> calNodesNLinks e cid level pid psum st = Inr st' \<longrightarrow> P cid level pid psum st st')"
    and "(\<forall>st'. e = env \<longrightarrow> elementsLoop e cid level pid psum els st = Inr st' \<longrightarrow> Q cid level pid psum els st st')"
    for e els
  proof (induction e cid level pid psum st and e cid level pid psum els st
      rule: calNodesNLinks_elementsLoop.induct)
    case (1 env' combinedID level parentId parentSum st)
    show ?case
    proof (intro allI impI)
      fix st' assume e: "env' = env" and r: "calNodesNLinks env' combinedID level parentId parentSum st = Inr st'"
      show "P combinedID level parentId parentSum st st'"
      proof (cases "level < length (catDataset env)")
        case False
        then show ?thesis using r e leaf[of level combinedID parentId st st' parentSum]
          by (simp add: calNodesNLinks_leaf)
      next
        case True
        with r e obtain els where u: "uniqueElements env combinedID level = Inr els"
          and l: "elementsLoop env combinedID level parentId parentSum els st = Inr st'"
          by (auto simp: calNodesNLinks_node split: sum.splits)
        have "Q combinedID level parentId parentSum els st st'"
          using "1.IH"[of els] True u l e by simp
        then show ?thesis using node[OF True u l] by simp
      qed
    qed
  next
    case (2 env' combinedID level parentId parentSum st)
    show ?case using nil by (simp add: elementsLoop.simps)
  next
    case (3 env' combinedID level parentId parentSum element rest st)
    show ?case
    proof (intro allI impI)
      fix st' assume e: "env' = env"
        and r: "elementsLoop env' combinedID level parentId parentSum (element # rest) st = Inr st'"
      from r e obtain col newCid a st2 where
        h: "level < length (catDataset env)"
          "nodeColorLoop (legendDataPoints env) (split combinedID ! 0) element None = Inr col"
          "newCombinedIDOf combinedID level element = Inr newCid"
          "calAggregate (catDataset env) (measureData env) newCid (totalValues env) = Inr a"
          "calNodesNLinks env newCid (level + 1) (idGen st) a
             (hierPush env level parentId parentSum element col newCid a st) = Inr st2"
          "elementsLoop env combinedID level parentId parentSum rest st2 = Inr st'"
        by (auto elim: elementsLoop_Cons_Inr)
      have p: "P newCid (level + 1) (idGen st) a (hierPush env level parentId parentSum element col newCid a st) st2"
        using "3.IH"(1)[of col "idGen st" "st\<lparr>idGen := idGen st + 1\<rparr>" newCid a] h e
        by (simp add: hierPush_def)
      have q: "Q combinedID level parentId parentSum rest st2 st'"
        using "3.IH"(2)[of col "idGen st" "st\<lparr>idGen := idGen st + 1\<rparr>" newCid a st2] h e
        by (simp add: hierPush_def)
      show "Q combinedID level parentId parentSum (element # rest) st st'"
        using cons[OF h(1-5) p h(6) q] .
    qed
  qed
  then show ?thesis using run by simp
qed

section \<open>Invariants of a run\<close>

lemma measureStages_invariant:
  assumes run: "measureStages env cid level pid st = Inr st'" and P: "P st"
    and step: "\<And>col iRow iCounter t t'. P t \<Longrightarrow> iCounter < length (measureData env) \<Longrightarrow>
                 stageStep env level pid col iRow iCounter t = Inr t' \<Longrightarrow> P t'"
    and sel: "\<And>t. P t \<Longrightarrow> P (t\<lparr>selectionArrayIndex := selectionArrayIndex t + 1\<rparr>)"
  shows "P st'"
proof -
  have stage: "P t'" if "forEach (stageStep env level pid col iRow) [0 ..< length (measureData env)] t = Inr t'" "P t"
    for col iRow t t'
    using that(1) that(2)
    by (rule forEach_invariant) (use step in auto)
  have cat: "P (snd cs')" if "stageCatStep env splitId level pid iRow c cs = Inr cs'" "P (snd cs)"
    for splitId iRow c cs cs'
    using that stage sel
    by (auto simp: stageCatStep_def Let_def split: sum.splits bool.splits if_splits)
  have row: "P t'" if r: "stageRowStep env splitId level pid iRow t = Inr t'" and t: "P t"
    for splitId iRow t t'
  proof -
    from r obtain cs where c: "forEach (stageCatStep env splitId level pid iRow) [0 ..< level] (0, t) = Inr cs"
      and e: "t' = snd cs"
      by (auto simp: stageRowStep_def split: sum.splits)
    have "P (snd cs)"
      using c by (rule forEach_invariant[where P="\<lambda>cs. P (snd cs)"]) (use t cat in auto)
    then show ?thesis using e by simp
  qed
  show ?thesis
    using run[unfolded measureStages_def] P
    by (rule forEach_invariant) (use row in auto)
qed

lemma upt_snoc_eq: "a \<le> b \<Longrightarrow> [a ..< b] @ [b] = [a ..< Suc b]"
  by simp

lemma idsOk_hierPush:
  assumes "idsOk k st" "level < k"
  shows "idsOk k (hierPush env level pid psum element col cid a st)"
proof -
  obtain r rest where r: "nodes (data st) = r # rest" "group r = 0"
    using assms(1) by (auto simp: idsOk_def)
  have g: "\<not> isHierarchy k r" "\<not> isStage k r"
    using r(2) by (simp_all add: isHierarchy_def isStage_def)
  have h: "isHierarchy k n" "\<not> isStage k n" if "group n = level + 1" for n
    using that assms(2) by (auto simp: isHierarchy_def isStage_def)
  show ?thesis
    using assms(1) r g
    by (auto simp: idsOk_def hierPush_def push_node_def push_link_def h)
qed

lemma idsOk_stageStep:
  assumes "idsOk k st" "stageStep env k pid col iRow iCounter st = Inr st'"
  shows "idsOk k st'"
proof (cases "m_root (measureData env ! iCounter)")
  case True
  then show ?thesis using assms by (simp add: stageStep_def Let_def)
next
  case False
  obtain r rest where r: "nodes (data st) = r # rest" "group r = 0"
    using assms(1) by (auto simp: idsOk_def)
  have g: "\<not> isHierarchy k r" "\<not> isStage k r"
    using r(2) by (simp_all add: isHierarchy_def isStage_def)
  have h: "isStage k n" "\<not> isHierarchy k n" if "group n = k + 1" for n
    using that by (auto simp: isHierarchy_def isStage_def)
  show ?thesis
    using assms False r g
    by (auto simp: idsOk_def stageStep_def Let_def push_node_def push_link_def h
             split: sum.splits)
qed

lemma idsOk_sel: "idsOk k st \<Longrightarrow> idsOk k (st\<lparr>selectionArrayIndex := i\<rparr>)"
  by (simp add: idsOk_def)

lemma calNodesNLinks_idsOk:
  assumes "calNodesNLinks env cid level pid psum st = Inr st'"
    and "level \<le> length (catDataset env)" "idsOk (length (catDataset env)) st"
  shows "idsOk (length (catDataset env)) st'"
proof -
  let ?k = "length (catDataset env)"
  have "level \<le> ?k \<longrightarrow> idsOk ?k st \<longrightarrow> idsOk ?k st'"
  proof (rule calNodesNLinks_run_induct
      [OF assms(1),
       where P="\<lambda>cid level pid psum st st'. level \<le> length (catDataset env) \<longrightarrow>
                  idsOk (length (catDataset env)) st \<longrightarrow> idsOk (length (catDataset env)) st'"
         and Q="\<lambda>cid level pid psum els st st'.
                  idsOk (length (catDataset env)) st \<longrightarrow> idsOk (length (catDataset env)) st'"],
      goal_cases)
    case (1 cid level pid psum st st')
    show ?case
    proof (intro impI)
      assume l: "level \<le> ?k" and i: "idsOk ?k st"
      from l 1(1) have e: "level = ?k" by simp
      show "idsOk ?k st'"
      proof (cases "length (measureData env) > 1 \<and> measureDataLengthCount env > 1")
        case True
        then have "measureStages env cid ?k pid st = Inr st'" using 1(2) e by simp
        then show ?thesis
          by (rule measureStages_invariant) (use i idsOk_stageStep idsOk_sel in auto)
      next
        case False
        then show ?thesis using 1(2) i by auto
      qed
    qed
  next
    case (2 cid level pid psum st els st')
    then show ?case by simp
  next
    case (3 cid level pid psum st)
    then show ?case by simp
  next
    case (4 cid level pid psum element rest st col newCid a st2 st')
    show ?case
    proof (intro impI)
      assume i: "idsOk ?k st"
      have "idsOk ?k (hierPush env level pid psum element col newCid a st)"
        using idsOk_hierPush[OF i 4(1)] .
      then have "idsOk ?k st2" using 4(6) 4(1) by simp
      then show "idsOk ?k st'" using 4(8) by simp
    qed
  qed
  then show ?thesis using assms by simp
qed

section \<open>The build as a whole\<close>

lemma build_InrE:
  assumes "build h rs cats ms = Inr (env, st)"
  obtains rootSum legend nm where
    "calAggregate cats ms ''none'' (length (cat_values (cats ! 0))) = Inr rootSum"
    "forEach (legendStep h (filter_js getDistinctElements (cat_values (cats ! 0))))
       [0 ..< length (filter_js getDistinctElements (cat_values (cats ! 0)))] [] = Inr legend"
    "rootName h rs ms (length (filter m_root ms)) = Inr nm"
    "env = envOf cats ms legend"
    "calNodesNLinks (envOf cats ms legend) [] 0 0 rootSum (initialState h rs cats ms rootSum nm) = Inr st"
  using assms
  unfolding build_def Let_def envOf_def initialState_def rootNodeOf_def rowTokens_def
  by (auto split: sum.splits)

lemma converter_InrE:
  assumes "converter h rs (View dataView) = Inr d" "categories dataView = Some cats" "cats \<noteq> []"
    "valueColumns dataView = Some ms" "ms \<noteq> []"
  obtains env st where
    "build h rs cats ms = Inr (env, st)"
    "addSelection cats (length ms) (measureDataLengthCount env) (data st) (selectionTokens env) = Inr d"
  using assms
  by (auto simp: converter_def split: sum.splits)

lemma converter_cases:
  assumes "converter h rs (View dataView) = Inr d"
  obtains (empty) "d = getDefaultData"
  | (built) cats ms env st where "categories dataView = Some cats" "cats \<noteq> []"
      "valueColumns dataView = Some ms" "ms \<noteq> []"
      "build h rs cats ms = Inr (env, st)"
      "addSelection cats (length ms) (measureDataLengthCount env) (data st) (selectionTokens env) = Inr d"
  using assms
  by (auto simp: converter_def split: sum.splits option.splits if_splits)

lemma idsOk_initial: "idsOk k (initialState h rs cats ms rootSum nm)"
  by (simp add: idsOk_def initialState_def rootNodeOf_def isHierarchy_def isStage_def)

lemma build_idsOk:
  assumes "build h rs cats ms = Inr (env, st)"
  shows "idsOk (length cats) st"
proof -
  from assms obtain rootSum legend nm where
    e: "env = envOf cats ms legend"
    and r: "calNodesNLinks (envOf cats ms legend) [] 0 0 rootSum (initialState h rs cats ms rootSum nm) = Inr st"
    by (rule build_InrE)
  have c: "catDataset (envOf cats ms legend) = cats" by (simp add: envOf_def)
  show ?thesis
    using calNodesNLinks_idsOk[OF r] idsOk_initial c by simp
qed

lemma strip_filter_map:
  assumes "map stripSel ns' = map stripSel ns"
    and "\<And>n. P (stripSel n) = P n" "\<And>n. f (stripSel n) = f n"
  shows "map f (filter P ns') = map f (filter P ns)"
proof -
  have "map f (filter P ns) = map f (filter P (map stripSel ns))" for ns
    by (induction ns) (simp_all add: assms(2,3))
  then show ?thesis using assms(1) by metis
qed

lemma strip_map:
  assumes "map stripSel ns' = map stripSel ns" and "\<And>n. f (stripSel n) = f n"
  shows "map f ns' = map f ns"
  using strip_filter_map[OF assms(1), of "\<lambda>n. True" f] assms(2) by simp

lemma stripSel_simps [simp]:
  "node_id (stripSel n) = node_id n" "group (stripSel n) = group n"
  "numberOfLeads (stripSel n) = numberOfLeads n" "percentage (stripSel n) = percentage n"
  "description (stripSel n) = description n" "program (stripSel n) = program n"
  "name (stripSel n) = name n" "color (stripSel n) = color n"
  by (simp_all add: stripSel_def)

lemma isHierarchy_strip [simp]: "isHierarchy k (stripSel n) = isHierarchy k n"
  by (simp add: isHierarchy_def)

lemma isStage_strip [simp]: "isStage k (stripSel n) = isStage k n"
  by (simp add: isStage_def)

lemma distinct_map_partition:
  assumes "distinct (map f (filter P xs))" "distinct (map f (filter (\<lambda>x. \<not> P x) xs))"
    and "\<And>x y. x \<in> set xs \<Longrightarrow> y \<in> set xs \<Longrightarrow> P x \<Longrightarrow> \<not> P y \<Longrightarrow> f x \<noteq> f y"
  shows "distinct (map f xs)"
  using assms
proof (induction xs)
  case Nil
  then show ?case by simp
next
  case (Cons x xs)
  have d: "distinct (map f xs)" using Cons by (auto split: if_splits)
  have "f x \<notin> f ` set xs"
  proof
    assume "f x \<in> f ` set xs"
    then obtain y where y: "y \<in> set xs" "f y = f x" by auto
    show False
    proof (cases "P x")
      case True
      show ?thesis
      proof (cases "P y")
        case True
        with \<open>P x\<close> Cons.prems(1) y show ?thesis by (force simp: image_iff)
      next
        case False
        with \<open>P x\<close> Cons.prems(3)[of x y] y show ?thesis by auto
      qed
    next
      case False
      show ?thesis
      proof (cases "P y")
        case True
        with False Cons.prems(3)[of y x] y show ?thesis by auto
      next
        case Py: False
        with False Cons.prems(2) y show ?thesis by (force simp: image_iff)
      qed
    qed
  qed
  then show ?case using d by simp
qed

lemma converter_scenarioA: "converter host0 rootSettings0 (View dvScenarioA) = Inr dataScenarioA"
  by (simp add: eval_rules dvScenarioA_def dataScenarioA_def)

lemma converter_funnel: "converter host0 rootSettings0 (View dvFunnel) = Inr dataFunnel"
  by (simp add: eval_rules dvFunnel_def dataFunnel_def)

lemma strip_list_all:
  assumes "map stripSel ns' = map stripSel ns" and "\<And>n. P (stripSel n) = P n"
  shows "list_all P ns' = list_all P ns"
proof -
  have "list_all P ns = list_all P (map stripSel ns)" for ns
    by (induction ns) (simp_all add: assms(2))
  then show ?thesis using assms(1) by metis
qed

lemma ids_distinct:
  assumes A: "map node_id (filter (isHierarchy k) ns) = [1 ..< g]"
    and B: "map node_id (filter (isStage k) ns) = [Suc M ..< Suc m]"
    and D: "ns = r # rest" "group r = 0" "node_id r = 0"
      "list_all (\<lambda>n. isHierarchy k n \<or> isStage k n) rest"
    and g: "g \<le> Suc M"
  shows "distinct (map node_id ns)"
proof (rule distinct_map_partition[where P="isHierarchy k"])
  show "distinct (map node_id (filter (isHierarchy k) ns))"
    using A by simp
next
  have r: "\<not> isHierarchy k r" "\<not> isStage k r"
    using D(2) by (simp_all add: isHierarchy_def isStage_def)
  have "filter (\<lambda>x. \<not> isHierarchy k x) rest = filter (isStage k) rest"
    using D(4) by (intro filter_cong) (auto simp: list_all_iff isHierarchy_def isStage_def)
  then have "map node_id (filter (\<lambda>x. \<not> isHierarchy k x) ns) = 0 # [Suc M ..< Suc m]"
    using B D(1,3) r by simp
  then show "distinct (map node_id (filter (\<lambda>x. \<not> isHierarchy k x) ns))"
    by simp
next
  fix x y assume x: "x \<in> set ns" "isHierarchy k x" and y: "y \<in> set ns" "\<not> isHierarchy k y"
  have "node_id x \<in> set (map node_id (filter (isHierarchy k) ns))"
    using x by auto
  then have ix: "1 \<le> node_id x" "node_id x < g" using A by auto
  show "node_id x \<noteq> node_id y"
  proof (cases "y = r")
    case True
    then show ?thesis using ix D(3) by simp
  next
    case False
    then have "y \<in> set rest" using y D(1) by simp
    then have "isStage k y" using D(4) y(2) by (auto simp: list_all_iff)
    then have "node_id y \<in> set (map node_id (filter (isStage k) ns))"
      using y by auto
    then have "Suc M \<le> node_id y" using B by auto
    then show ?thesis using ix g by simp
  qed
qed

lemma converter_ids:
  assumes c: "converter h rs (View dataView) = Inr d" and ne: "nodes d \<noteq> []"
  obtains g m r rest where
    "map node_id (hierarchyNodes dataView d) = [1 ..< g]" "1 \<le> g"
    "map node_id (stageNodes dataView d) = [Suc maxMeasure ..< Suc m]" "maxMeasure \<le> m"
    "nodes d = r # rest" "group r = 0" "node_id r = 0"
    "list_all (\<lambda>n. isHierarchy (catCount dataView) n \<or> isStage (catCount dataView) n) rest"
  using c
proof (cases rule: converter_cases)
  case empty
  then show ?thesis using ne by (simp add: getDefaultData_def)
next
  case (built cats ms env st)
  let ?k = "length cats"
  have k: "catCount dataView = ?k" using built(1) by (simp add: catCount_def)
  have i: "idsOk ?k st" using build_idsOk[OF built(5)] .
  have s: "map stripSel (nodes d) = map stripSel (nodes (data st))"
    using addSelection_strip[OF built(6)] by simp
  from i obtain r rest where r: "nodes (data st) = r # rest" "group r = 0" "node_id r = 0"
    "list_all (\<lambda>n. isHierarchy ?k n \<or> isStage ?k n) rest"
    by (auto simp: idsOk_def)
  from s r(1) obtain r' rest' where r': "nodes d = r' # rest'"
    "stripSel r' = stripSel r" "map stripSel rest' = map stripSel rest"
    by (cases "nodes d") auto
  have g0: "group r' = 0" "node_id r' = 0"
    using r'(2) r(2,3) by (metis stripSel_simps(2), metis stripSel_simps(1))
  have la: "list_all (\<lambda>n. isHierarchy ?k n \<or> isStage ?k n) rest'"
    using strip_list_all[OF r'(3), of "\<lambda>n. isHierarchy ?k n \<or> isStage ?k n"] r(4) by simp
  have A: "map node_id (hierarchyNodes dataView d) = [1 ..< idGen st]"
    using strip_filter_map[OF s, of "isHierarchy ?k" node_id] i
    by (simp add: hierarchyNodes_def k idsOk_def)
  have B: "map node_id (stageNodes dataView d) = [Suc maxMeasure ..< Suc (measureIdGen st)]"
    using strip_filter_map[OF s, of "isStage ?k" node_id] i
    by (simp add: stageNodes_def k idsOk_def)
  show ?thesis
    using that[OF A _ B _ r'(1) g0] la i by (simp add: k idsOk_def)
qed

lemma extends_refl: "extends st st"
  by (simp add: extends_def)

lemma extends_trans: "extends a b \<Longrightarrow> extends b c \<Longrightarrow> extends a c"
  by (auto simp: extends_def)

lemma extends_hierPush: "extends st (hierPush env level pid psum element col cid a st)"
  by (simp add: extends_def hierPush_def push_node_def push_link_def)

lemma extends_stageStep: "stageStep env level pid col iRow iCounter st = Inr st' \<Longrightarrow> extends st st'"
  by (auto simp: extends_def stageStep_def Let_def push_node_def push_link_def
           split: sum.splits if_splits)

lemma extends_sel: "extends st (st\<lparr>selectionArrayIndex := i\<rparr>)"
  by (simp add: extends_def)

lemma measureStages_extends:
  assumes "measureStages env cid level pid st = Inr st'"
  shows "extends st st'"
  using assms
  by (rule measureStages_invariant[where P="extends st"])
     (auto intro: extends_refl extends_trans extends_stageStep extends_sel)

lemma calNodesNLinks_extends:
  assumes "calNodesNLinks env cid level pid psum st = Inr st'"
  shows "extends st st'"
proof (rule calNodesNLinks_run_induct
    [OF assms, where P="\<lambda>cid level pid psum st st'. extends st st'"
       and Q="\<lambda>cid level pid psum els st st'. extends st st'"], goal_cases)
  case (1 cid level pid psum st st')
  then show ?case
    by (auto intro: measureStages_extends extends_refl split: if_splits)
next
  case (2 cid level pid psum st els st')
  then show ?case by simp
next
  case (3 cid level pid psum st)
  then show ?case by (rule extends_refl)
next
  case (4 cid level pid psum element rest st col newCid a st2 st')
  show ?case
    using extends_trans[OF extends_trans[OF extends_hierPush 4(6)] 4(8)] .
qed

lemma elementsLoop_extends:
  assumes "elementsLoop env cid level pid psum els st = Inr st'"
  shows "extends st st'"
  using assms
proof (induction els arbitrary: st)
  case Nil
  then show ?case by (simp add: elementsLoop.simps extends_refl)
next
  case (Cons element rest)
  from Cons.prems obtain col newCid a st2 where
    c: "calNodesNLinks env newCid (level + 1) (idGen st) a
          (hierPush env level pid psum element col newCid a st) = Inr st2"
    and r: "elementsLoop env cid level pid psum rest st2 = Inr st'"
    by (rule elementsLoop_Cons_Inr)
  show ?case
    using extends_trans[OF extends_trans[OF extends_hierPush calNodesNLinks_extends[OF c]] Cons.IH[OF r]] .
qed

section \<open>Every node of a categorical value has a parent\<close>

lemma isParentOf_mono: "isParentOf ns ls p n \<Longrightarrow> isParentOf (ns @ ns') (ls @ ls') p n"
  by (auto simp: isParentOf_def list_ex_iff)

lemma childOf_mono: "childOf ns ls p n \<Longrightarrow> childOf (ns @ ns') (ls @ ls') p n"
  by (simp add: childOf_def isParentOf_mono)

lemma parentsOk_append:
  assumes "parentsOk k ns ls"
    and "list_all (\<lambda>n. isHierarchy k n \<longrightarrow>
           list_ex (\<lambda>p. childOf (ns @ ns') (ls @ ls') p n) (ns @ ns')) ns'"
  shows "parentsOk k (ns @ ns') (ls @ ls')"
proof -
  have "list_ex (\<lambda>p. childOf (ns @ ns') (ls @ ls') p n) (ns @ ns')"
    if n: "n \<in> set ns" "isHierarchy k n" for n
  proof -
    from assms(1) n obtain p where p: "p \<in> set ns" "childOf ns ls p n"
      unfolding parentsOk_def list_all_iff list_ex_iff by blast
    show ?thesis
      unfolding list_ex_iff using p childOf_mono[OF p(2), of ns' ls'] by auto
  qed
  then show ?thesis
    using assms(2) unfolding parentsOk_def list_all_iff by auto
qed

lemma hasNode_extends:
  "hasNode st pid psum level cid \<Longrightarrow> extends st st' \<Longrightarrow> hasNode st' pid psum level cid"
  by (auto simp: hasNode_def extends_def list_ex_iff)

lemma parentsOkSt_sel: "parentsOkSt k st \<Longrightarrow> parentsOkSt k (st\<lparr>selectionArrayIndex := i\<rparr>)"
  by (simp add: parentsOkSt_def)

lemma parentsOkSt_stageStep:
  assumes "parentsOkSt k st" "stageStep env k pid col iRow iCounter st = Inr st'"
  shows "parentsOkSt k st'"
proof (cases "m_root (measureData env ! iCounter)")
  case True
  then show ?thesis using assms by (simp add: stageStep_def Let_def)
next
  case False
  from assms(2) False obtain n l where
    e: "nodes (data st') = nodes (data st) @ [n]" "links (data st') = links (data st) @ [l]"
    and g: "group n = k + 1"
    by (auto simp: stageStep_def Let_def push_node_def push_link_def split: sum.splits)
  have "\<not> isHierarchy k n" using g by (simp add: isHierarchy_def)
  then show ?thesis
    using parentsOk_append[of k "nodes (data st)" "links (data st)" "[n]" "[l]"] assms(1) e
    by (simp add: parentsOkSt_def)
qed

lemma nameString_ofCat: "nameString (ofCat element) = concatString element"
  by (cases element) simp_all

lemma newCombinedID_description:
  assumes "newCombinedIDOf cid0 level element = Inr cid"
  shows "cid = (if level = 0 then nameString (ofCat element)
                else cid0 @ ''***'' @ nameString (ofCat element))"
  using assms
  by (cases element) (auto simp: newCombinedIDOf_def split: if_splits)

lemma parentsOkSt_hierPush:
  assumes "parentsOkSt k st" "hasNode st pid psum level cid0"
    and "newCombinedIDOf cid0 level element = Inr cid"
  shows "parentsOkSt k (hierPush env level pid psum element col cid a st)"
proof -
  let ?n = "\<lparr>node_id = idGen st, program = cat_displayName (catDataset env ! level),
        name = ofCat element, group = level + 1, numberOfLeads = Num a,
        percentage = js_div a psum, description = cid, color = col,
        selectionId = SelArray []\<rparr>"
  let ?l = "\<lparr>source = pid, target = idGen st, link_value = Num a, Activity = []\<rparr>"
  have e: "nodes (data (hierPush env level pid psum element col cid a st)) = nodes (data st) @ [?n]"
    "links (data (hierPush env level pid psum element col cid a st)) = links (data st) @ [?l]"
    by (simp_all add: hierPush_def push_node_def push_link_def)
  from assms(2) obtain p where p: "p \<in> set (nodes (data st))" "node_id p = pid"
    "numberOfLeads p = Num psum" "group p = level" "description p = cid0"
    by (auto simp: hasNode_def list_ex_iff)
  have "childOf (nodes (data st) @ [?n]) (links (data st) @ [?l]) p ?n"
    using p newCombinedID_description[OF assms(3)]
    by (simp add: childOf_def isParentOf_def percentageOf_def descriptionOf_def)
  then have "list_ex (\<lambda>p. childOf (nodes (data st) @ [?n]) (links (data st) @ [?l]) p ?n)
       (nodes (data st) @ [?n])"
    using p(1) unfolding list_ex_iff by (intro bexI[of _ p]) auto
  then show ?thesis
    using parentsOk_append[of k "nodes (data st)" "links (data st)" "[?n]" "[?l]"] assms(1)
    unfolding parentsOkSt_def e by simp
qed

lemma hasNode_hierPush:
  "hasNode (hierPush env level pid psum element col cid a st) (idGen st) a (level + 1) cid"
  by (simp add: hasNode_def hierPush_def push_node_def push_link_def)

lemma calNodesNLinks_parentsOk:
  assumes run: "calNodesNLinks env cid level pid psum st = Inr st'"
    and "level \<le> length (catDataset env)" "hasNode st pid psum level cid"
      "parentsOkSt (length (catDataset env)) st"
  shows "parentsOkSt (length (catDataset env)) st'"
proof -
  let ?k = "length (catDataset env)"
  have "level \<le> ?k \<longrightarrow> hasNode st pid psum level cid \<longrightarrow> parentsOkSt ?k st \<longrightarrow> parentsOkSt ?k st'"
  proof (rule calNodesNLinks_run_induct
      [OF run,
       where P="\<lambda>cid level pid psum st st'. level \<le> length (catDataset env) \<longrightarrow>
                  hasNode st pid psum level cid \<longrightarrow> parentsOkSt (length (catDataset env)) st \<longrightarrow>
                  parentsOkSt (length (catDataset env)) st'"
         and Q="\<lambda>cid level pid psum els st st'.
                  hasNode st pid psum level cid \<longrightarrow> parentsOkSt (length (catDataset env)) st \<longrightarrow>
                  parentsOkSt (length (catDataset env)) st'"],
      goal_cases)
    case (1 cid level pid psum st st')
    show ?case
    proof (intro impI)
      assume l: "level \<le> ?k" and i: "parentsOkSt ?k st"
      from l 1(1) have e: "level = ?k" by simp
      show "parentsOkSt ?k st'"
      proof (cases "length (measureData env) > 1 \<and> measureDataLengthCount env > 1")
        case True
        then have "measureStages env cid ?k pid st = Inr st'" using 1(2) e by simp
        then show ?thesis
          by (rule measureStages_invariant) (use i parentsOkSt_stageStep parentsOkSt_sel in auto)
      next
        case False
        then show ?thesis using 1(2) i by auto
      qed
    qed
  next
    case (2 cid level pid psum st els st')
    then show ?case by simp
  next
    case (3 cid level pid psum st)
    then show ?case by simp
  next
    case (4 cid level pid psum element rest st col newCid a st2 st')
    show ?case
    proof (intro impI)
      assume h: "hasNode st pid psum level cid" and i: "parentsOkSt ?k st"
      let ?st1 = "hierPush env level pid psum element col newCid a st"
      have "parentsOkSt ?k ?st1" using parentsOkSt_hierPush[OF i h 4(3)] .
      then have i2: "parentsOkSt ?k st2" using 4(6) 4(1) hasNode_hierPush by simp
      have "extends st st2"
        using extends_trans[OF extends_hierPush calNodesNLinks_extends[OF 4(5)]] .
      then have "hasNode st2 pid psum level cid" using h hasNode_extends by blast
      then show "parentsOkSt ?k st'" using 4(8) i2 by simp
    qed
  qed
  then show ?thesis using assms by simp
qed

lemma build_parentsOk:
  assumes "build h rs cats ms = Inr (env, st)"
  shows "parentsOkSt (length cats) st"
proof -
  from assms obtain rootSum legend nm where
    r: "calNodesNLinks (envOf cats ms legend) [] 0 0 rootSum (initialState h rs cats ms rootSum nm) = Inr st"
    by (rule build_InrE)
  have c: "catDataset (envOf cats ms legend) = cats" by (simp add: envOf_def)
  have h: "hasNode (initialState h rs cats ms rootSum nm) 0 rootSum 0 []"
    by (simp add: hasNode_def initialState_def rootNodeOf_def)
  have p: "parentsOkSt (length cats) (initialState h rs cats ms rootSum nm)"
    by (simp add: parentsOkSt_def parentsOk_def initialState_def rootNodeOf_def isHierarchy_def)
  show ?thesis
    using calNodesNLinks_parentsOk[OF r] h p c by simp
qed

lemma stripSel_eqD:
  assumes "stripSel x = stripSel y"
  shows "node_id x = node_id y" "group x = group y" "numberOfLeads x = numberOfLeads y"
    "percentage x = percentage y" "description x = description y" "program x = program y"
    "name x = name y"
  using assms stripSel_simps by metis+

lemma strip_set:
  assumes "map stripSel ns' = map stripSel ns" "n \<in> set ns"
  obtains n' where "n' \<in> set ns'" "stripSel n' = stripSel n"
proof -
  have "stripSel n \<in> set (map stripSel ns')" using assms by simp
  then show ?thesis using that by auto
qed

lemma parentsOk_strip:
  assumes s: "map stripSel ns' = map stripSel ns" and ok: "parentsOk k ns ls"
  shows "parentsOk k ns' ls"
  unfolding parentsOk_def list_all_iff
proof (intro ballI impI)
  fix n' assume n': "n' \<in> set ns'" "isHierarchy k n'"
  from s[symmetric] n'(1) obtain n where n: "n \<in> set ns" "stripSel n = stripSel n'"
    by (rule strip_set)
  have "isHierarchy k n" using n(2) n'(2) by (metis isHierarchy_strip)
  with ok n(1) obtain p where p: "p \<in> set ns" "isParentOf ns ls p n" "percentageOf p n"
    "descriptionOf p n"
    unfolding parentsOk_def childOf_def list_all_iff list_ex_iff by blast
  from s p(1) obtain p' where p': "p' \<in> set ns'" "stripSel p' = stripSel p"
    by (rule strip_set)
  have "isParentOf ns' ls p' n'"
    using p(2) p'(1) stripSel_eqD[OF p'(2)] stripSel_eqD[OF n(2)]
    by (simp add: isParentOf_def)
  moreover have "percentageOf p' n'"
    using p(3) stripSel_eqD(3,4)[OF p'(2)] stripSel_eqD(3,4)[OF n(2)]
    unfolding percentageOf_def by metis
  moreover have "descriptionOf p' n'"
    using p(4) stripSel_eqD(2,5,7)[OF p'(2)] stripSel_eqD(2,5,7)[OF n(2)]
    unfolding descriptionOf_def by metis
  ultimately show "list_ex (\<lambda>p. childOf ns' ls p n') ns'"
    using p'(1) unfolding list_ex_iff childOf_def by blast
qed

lemma converter_parents:
  assumes "converter h rs (View dataView) = Inr d"
  shows "parentsOk (catCount dataView) (nodes d) (links d)"
  using assms
proof (cases rule: converter_cases)
  case empty
  then show ?thesis by (simp add: getDefaultData_def parentsOk_def)
next
  case (built cats ms env st)
  have k: "catCount dataView = length cats" using built(1) by (simp add: catCount_def)
  have "parentsOk (length cats) (nodes (data st)) (links (data st))"
    using build_parentsOk[OF built(5)] by (simp add: parentsOkSt_def)
  then show ?thesis
    using parentsOk_strip[of "nodes d" "nodes (data st)"] addSelection_strip[OF built(6)] k
    by simp
qed

lemma build_root:
  assumes "build h rs cats ms = Inr (env, st)"
  obtains rootSum nm rest where
    "calAggregate cats ms ''none'' (length (cat_values (cats ! 0))) = Inr rootSum"
    "nodes (data st) = rootNodeOf h rs cats ms rootSum nm # rest"
proof -
  from assms obtain rootSum legend nm where
    a: "calAggregate cats ms ''none'' (length (cat_values (cats ! 0))) = Inr rootSum"
    and r: "calNodesNLinks (envOf cats ms legend) [] 0 0 rootSum (initialState h rs cats ms rootSum nm) = Inr st"
    by (rule build_InrE)
  from calNodesNLinks_extends[OF r] obtain ns where
    "nodes (data st) = rootNodeOf h rs cats ms rootSum nm # ns"
    by (auto simp: extends_def initialState_def)
  then show ?thesis using that a by blast
qed

lemma converter_root:
  assumes "converter h rs (View dataView) = Inr d" "nodes d \<noteq> []"
  obtains cats ms rootSum nm r rest where
    "categories dataView = Some cats" "cats \<noteq> []" "valueColumns dataView = Some ms" "ms \<noteq> []"
    "calAggregate cats ms ''none'' (length (cat_values (cats ! 0))) = Inr rootSum"
    "nodes d = r # rest" "stripSel r = stripSel (rootNodeOf h rs cats ms rootSum nm)"
  using assms(1)
proof (cases rule: converter_cases)
  case empty
  then show ?thesis using assms(2) by (simp add: getDefaultData_def)
next
  case (built cats ms env st)
  from built(5) obtain rootSum nm rest where
    a: "calAggregate cats ms ''none'' (length (cat_values (cats ! 0))) = Inr rootSum"
    and n: "nodes (data st) = rootNodeOf h rs cats ms rootSum nm # rest"
    by (rule build_root)
  have "map stripSel (nodes d) = map stripSel (nodes (data st))"
    using addSelection_strip[OF built(6)] by simp
  with n obtain r rest' where "nodes d = r # rest'"
    "stripSel r = stripSel (rootNodeOf h rs cats ms rootSum nm)"
    by (cases "nodes d") auto
  then show ?thesis using that[OF built(1-4) a] by blast
qed

lemma percentageOf_finite: "percentageOf p n \<Longrightarrow> finiteQuotient p n"
  by (auto simp: percentageOf_def finiteQuotient_def split: jsval.splits jsnum.splits)

lemma percentageOf_zero: "percentageOf p n \<Longrightarrow> zeroParentQuotient p n"
  by (auto simp: percentageOf_def zeroParentQuotient_def split: jsval.splits jsnum.splits)

lemma converter_zero: "converter host0 rootSettings0 (View dvZero) = Inr dataZero"
  by (simp add: eval_rules dvZero_def dataZero_def)

section \<open>What calAggregate computes\<close>

lemma forEach_snoc:
  "forEach f (xs @ [x]) s = (case forEach f xs s of Inl e \<Rightarrow> Inl e | Inr s' \<Rightarrow> f x s')"
  by (simp add: forEach_append split: sum.splits)

lemma forEach_upt_Suc:
  "forEach f [0 ..< Suc m] s = (case forEach f [0 ..< m] s of Inl e \<Rightarrow> Inl e | Inr s' \<Rightarrow> f m s')"
  using forEach_snoc[of f "[0 ..< m]" m s] by simp

lemma aggLevel_loop:
  assumes "forEach (aggLevelStep cats ms hs r) [0 ..< m] (0, sm) = Inr (c, s)"
    and "m \<le> length hs" "hs \<noteq> []"
  shows "c \<le> m \<and> (c = m \<longleftrightarrow> (\<forall>l<m. catCell cats l r = Inr (hs ! l))) \<and>
         (if c = length hs then (\<exists>v. measureCell ms 0 r = Inr v \<and> s = js_add sm v) else s = sm)"
  using assms(1,2)
proof (induction m arbitrary: c s)
  case 0
  then show ?case using assms(3) by auto
next
  case (Suc m)
  from Suc.prems(1) obtain c0 s0 where
    p: "forEach (aggLevelStep cats ms hs r) [0 ..< m] (0, sm) = Inr (c0, s0)"
    and st: "aggLevelStep cats ms hs r m (c0, s0) = Inr (c, s)"
    by (auto simp: forEach_snoc split: sum.splits)
  have ih: "c0 \<le> m" "c0 = m \<longleftrightarrow> (\<forall>l<m. catCell cats l r = Inr (hs ! l))"
    "if c0 = length hs then (\<exists>v. measureCell ms 0 r = Inr v \<and> s0 = js_add sm v) else s0 = sm"
    using Suc.IH[OF p] Suc.prems(2) by auto
  have ne: "c0 \<noteq> length hs" using ih(1) Suc.prems(2) by simp
  then have s0: "s0 = sm" using ih(3) by simp
  have L: "(length hs - 1) + 1 = length hs" using assms(3) by (cases hs) auto
  from st obtain x where x: "catCell cats m r = Inr x"
    by (auto simp: aggLevelStep_def split: sum.splits)
  show ?case
  proof (cases "x = hs ! m")
    case True
    have c: "c = c0 + 1" using st x True
      by (auto simp: aggLevelStep_def Let_def split: sum.splits if_splits)
    have all: "(\<forall>l<Suc m. catCell cats l r = Inr (hs ! l)) \<longleftrightarrow> c0 = m"
      using ih(2) x True by (auto simp: less_Suc_eq)
    have fin: "if c = length hs then (\<exists>v. measureCell ms 0 r = Inr v \<and> s = js_add sm v) else s = sm"
      using st x True s0 L c
      by (auto simp: aggLevelStep_def Let_def split: sum.splits if_splits)
    show ?thesis using c ih(1) all fin by auto
  next
    case False
    have c: "c = c0" "s = s0" using st x False
      by (auto simp: aggLevelStep_def Let_def split: sum.splits if_splits)
    have all: "\<not> (\<forall>l<Suc m. catCell cats l r = Inr (hs ! l))"
      using x False by (auto simp: less_Suc_eq)
    show ?thesis using c ih(1) all s0 ne by auto
  qed
qed

lemma aggRowStep_result:
  assumes "aggRowStep cats ms hs r sm = Inr s" "hs \<noteq> []"
  shows "s = (if rowMatches cats hs r then js_add sm (measureOf ms r) else sm)"
proof -
  have L: "(length hs - 1) + 1 = length hs" using assms(2) by (cases hs) auto
  have "aggRowStep cats ms hs r sm =
      (case forEach (aggLevelStep cats ms hs r) [0 ..< length hs] (0, sm) of
         Inl e \<Rightarrow> Inl e | Inr cs \<Rightarrow> Inr (snd cs))"
    unfolding aggRowStep_def L ..
  with assms(1) obtain c where
    f: "forEach (aggLevelStep cats ms hs r) [0 ..< length hs] (0, sm) = Inr (c, s)"
    by (auto split: sum.splits)
  have a: "c = length hs \<longleftrightarrow> (\<forall>l<length hs. catCell cats l r = Inr (hs ! l))"
    and b: "if c = length hs then (\<exists>v. measureCell ms 0 r = Inr v \<and> s = js_add sm v) else s = sm"
    using aggLevel_loop[OF f _ assms(2)] by auto
  have m: "rowMatches cats hs r \<longleftrightarrow> c = length hs"
    using a by (auto simp: rowMatches_def list_all_iff)
  show ?thesis using b m by (auto simp: measureOf_def)
qed

lemma aggRows_loop:
  assumes "forEach (aggRowStep cats ms hs) [0 ..< n] s0 = Inr s" "hs \<noteq> []"
  shows "s = foldl js_add s0 (map (measureOf ms) (filter (rowMatches cats hs) [0 ..< n]))"
  using assms(1)
proof (induction n arbitrary: s)
  case 0
  then show ?case by simp
next
  case (Suc n)
  from Suc.prems obtain s1 where
    p: "forEach (aggRowStep cats ms hs) [0 ..< n] s0 = Inr s1"
    and st: "aggRowStep cats ms hs n s1 = Inr s"
    by (auto simp: forEach_snoc split: sum.splits)
  show ?case
    using Suc.IH[OF p] aggRowStep_result[OF st assms(2)] by simp
qed

lemma aggTotal_loop:
  assumes "forEach (aggTotalStep ms) [0 ..< n] s0 = Inr s"
  shows "s = foldl js_add s0 (map (measureOf ms) [0 ..< n])"
  using assms
proof (induction n arbitrary: s)
  case 0
  then show ?case by simp
next
  case (Suc n)
  from Suc.prems obtain s1 where
    p: "forEach (aggTotalStep ms) [0 ..< n] s0 = Inr s1"
    and st: "aggTotalStep ms n s1 = Inr s"
    by (auto simp: forEach_snoc split: sum.splits)
  have "s = js_add s1 (measureOf ms n)"
    using st by (auto simp: aggTotalStep_def measureOf_def split: sum.splits)
  then show ?case using Suc.IH[OF p] by simp
qed

lemma split_nonempty: "split s \<noteq> []"
proof -
  have "splitFrom acc s \<noteq> []" for acc
    by (induction acc s rule: splitFrom.induct) auto
  then show ?thesis by (simp add: split_def)
qed

lemma calAggregate_rowSum:
  assumes "calAggregate cats ms cid n = Inr s" "cid \<noteq> ''none''"
  shows "s = rowSum cats ms (split cid) n"
  using assms aggRows_loop[of cats ms "split cid" n "Fin 0" s] split_nonempty
  by (simp add: calAggregate_def rowSum_def)

lemma calAggregate_total:
  assumes "calAggregate cats ms ''none'' n = Inr s"
  shows "s = rowSum cats ms [] n"
  using assms aggTotal_loop[of ms n "Fin 0" s]
  by (simp add: calAggregate_def rowSum_def rowMatches_def)

lemma calNodesNLinks_state_invariant:
  assumes run: "calNodesNLinks env cid level pid psum st = Inr st'"
    and lv: "level \<le> length (catDataset env)" and P: "P st"
    and stage: "\<And>pid col iRow iCounter t t'. P t \<Longrightarrow>
        stageStep env (length (catDataset env)) pid col iRow iCounter t = Inr t' \<Longrightarrow> P t'"
    and sel: "\<And>t. P t \<Longrightarrow> P (t\<lparr>selectionArrayIndex := selectionArrayIndex t + 1\<rparr>)"
    and hier: "\<And>t level pid psum element col cid0 cid a. P t \<Longrightarrow>
        level < length (catDataset env) \<Longrightarrow>
        newCombinedIDOf cid0 level element = Inr cid \<Longrightarrow>
        calAggregate (catDataset env) (measureData env) cid (totalValues env) = Inr a \<Longrightarrow>
        P (hierPush env level pid psum element col cid a t)"
  shows "P st'"
proof -
  let ?k = "length (catDataset env)"
  have "level \<le> ?k \<longrightarrow> P st \<longrightarrow> P st'"
  proof (rule calNodesNLinks_run_induct
      [OF run,
       where P="\<lambda>cid level pid psum st st'. level \<le> length (catDataset env) \<longrightarrow> P st \<longrightarrow> P st'"
         and Q="\<lambda>cid level pid psum els st st'. P st \<longrightarrow> P st'"],
      goal_cases)
    case (1 cid level pid psum st st')
    show ?case
    proof (intro impI)
      assume l: "level \<le> ?k" and i: "P st"
      from l 1(1) have e: "level = ?k" by simp
      show "P st'"
      proof (cases "length (measureData env) > 1 \<and> measureDataLengthCount env > 1")
        case True
        then have "measureStages env cid ?k pid st = Inr st'" using 1(2) e by simp
        then show ?thesis
          by (rule measureStages_invariant) (use i stage sel in auto)
      next
        case False
        then show ?thesis using 1(2) i by auto
      qed
    qed
  next
    case (2 cid level pid psum st els st')
    then show ?case by simp
  next
    case (3 cid level pid psum st)
    then show ?case by simp
  next
    case (4 cid level pid psum element rest st col newCid a st2 st')
    show ?case
    proof (intro impI)
      assume i: "P st"
      have "P (hierPush env level pid psum element col newCid a st)"
        using hier[OF i 4(1) 4(3) 4(4)] .
      then have "P st2" using 4(6) 4(1) by simp
      then show "P st'" using 4(8) by simp
    qed
  qed
  then show ?thesis using lv P by simp
qed

lemma calNodesNLinks_aggregateOk:
  assumes run: "calNodesNLinks env cid level pid psum st = Inr st'"
    and lv: "level \<le> length (catDataset env)"
    and ok: "aggregateOk (length (catDataset env)) (catDataset env) (measureData env) (totalValues env)
               (nodes (data st))"
  shows "aggregateOk (length (catDataset env)) (catDataset env) (measureData env) (totalValues env)
           (nodes (data st'))"
proof (rule calNodesNLinks_state_invariant
    [OF run lv, where P="\<lambda>t. aggregateOk (length (catDataset env)) (catDataset env)
       (measureData env) (totalValues env) (nodes (data t))"], goal_cases)
  case 1
  show ?case by (rule ok)
next
  case (2 pid col iRow iCounter t t')
  show ?case
  proof (cases "m_root (measureData env ! iCounter)")
    case True
    then show ?thesis using 2 by (simp add: stageStep_def Let_def)
  next
    case False
    from 2(2) False obtain n where
      e: "nodes (data t') = nodes (data t) @ [n]" and g: "group n = length (catDataset env) + 1"
      by (auto simp: stageStep_def Let_def push_node_def push_link_def split: sum.splits)
    have "\<not> isHierarchy (length (catDataset env)) n" using g by (simp add: isHierarchy_def)
    then show ?thesis using 2(1) e by (simp add: aggregateOk_def)
  qed
next
  case (3 t)
  then show ?case by simp
next
  case (4 t level pid psum element col cid0 cid a)
  then show ?case
    by (simp add: aggregateOk_def hierPush_def push_node_def push_link_def)
qed

lemma aggregateOk_strip:
  assumes s: "map stripSel ns' = map stripSel ns" and ok: "aggregateOk k cats ms n ns"
  shows "aggregateOk k cats ms n ns'"
  unfolding aggregateOk_def list_all_iff
proof (intro ballI impI)
  fix x' assume x': "x' \<in> set ns'" "isHierarchy k x'"
  from s[symmetric] x'(1) obtain x where x: "x \<in> set ns" "stripSel x = stripSel x'"
    by (rule strip_set)
  have "isHierarchy k x" using x(2) x'(2) by (metis isHierarchy_strip)
  with ok x(1) have "case numberOfLeads x of Num a \<Rightarrow> calAggregate cats ms (description x) n = Inr a
      | _ \<Rightarrow> False"
    unfolding aggregateOk_def list_all_iff by blast
  then show "case numberOfLeads x' of Num a \<Rightarrow> calAggregate cats ms (description x') n = Inr a
      | _ \<Rightarrow> False"
    using stripSel_eqD(3,5)[OF x(2)] by metis
qed

lemma converter_aggregateOk:
  assumes "converter h rs (View dataView) = Inr d" "categories dataView = Some cats"
    "valueColumns dataView = Some ms"
  shows "aggregateOk (length cats) cats ms (length (m_values (ms ! 0))) (nodes d)"
  using assms(1)
proof (cases rule: converter_cases)
  case empty
  then show ?thesis by (simp add: getDefaultData_def aggregateOk_def)
next
  case (built cats' ms' env st)
  have e: "cats' = cats" "ms' = ms" using built(1,3) assms(2,3) by simp_all
  from built(5)[unfolded e] obtain rootSum legend nm where
    r: "calNodesNLinks (envOf cats ms legend) [] 0 0 rootSum (initialState h rs cats ms rootSum nm) = Inr st"
    by (rule build_InrE)
  have i: "aggregateOk (length cats) cats ms (length (m_values (ms ! 0)))
      (nodes (data (initialState h rs cats ms rootSum nm)))"
    by (simp add: aggregateOk_def initialState_def rootNodeOf_def isHierarchy_def)
  have "aggregateOk (length cats) cats ms (length (m_values (ms ! 0))) (nodes (data st))"
    using calNodesNLinks_aggregateOk[OF r] i by (simp add: envOf_def)
  then show ?thesis
    using aggregateOk_strip[of "nodes d" "nodes (data st)"] addSelection_strip[OF built(6)]
    by simp
qed

lemma splitFrom_starfree:
  "CHR ''*'' \<notin> set s \<Longrightarrow> splitFrom acc (s @ t) = splitFrom (acc @ s) t"
  by (induction s arbitrary: acc) auto

lemma splitFrom_delimiter: "splitFrom acc (''***'' @ t) = acc # splitFrom [] t"
  by simp

lemma split_joinKey:
  assumes "key \<noteq> []" "\<forall>c \<in> set key. CHR ''*'' \<notin> set c"
  shows "split (joinKey key) = key"
proof -
  have "splitFrom [] (joinKey key) = key" using assms
  proof (induction key rule: joinKey.induct)
    case 1
    then show ?case by simp
  next
    case (2 c)
    then show ?case using splitFrom_starfree[of c "[]" "[]"] by simp
  next
    case (3 c v va)
    have "splitFrom [] (c @ ''***'' @ joinKey (v # va)) = splitFrom c (''***'' @ joinKey (v # va))"
      using splitFrom_starfree[of c "[]" "''***'' @ joinKey (v # va)"] 3(3) by simp
    also have "\<dots> = c # splitFrom [] (joinKey (v # va))"
      by (rule splitFrom_delimiter)
    finally show ?case using 3 by simp
  qed
  then show ?thesis by (simp add: split_def)
qed

lemma converter_scenarioB: "converter host0 rootSettings0 (View dvScenarioB) = Inr dataScenarioB"
  by (simp add: eval_rules dvScenarioB_def dataScenarioB_def catsScenarioB_def msScenarioB_def)

lemma converter_delimiter: "converter host0 rootSettings0 (View dvDelimiter) = Inr dataDelimiter"
  by (simp add: eval_rules dvDelimiter_def dataDelimiter_def catsDelimiter_def msDelimiter_def)

section \<open>The distinct values of a level\<close>

lemma indexOf_Some_less: "indexOf xs v = Some i \<Longrightarrow> i < length xs"
  by (induction xs arbitrary: i) (auto split: if_splits)

lemma indexOf_None: "indexOf xs v = None \<longleftrightarrow> v \<notin> set xs"
  by (induction xs) auto

lemma indexOf_append:
  "indexOf (pre @ suf) v =
     (if v \<in> set pre then indexOf pre v else map_option (\<lambda>i. i + length pre) (indexOf suf v))"
proof (induction pre)
  case Nil
  show ?case by (simp add: option.map_ident)
next
  case (Cons a pre)
  show ?case
  proof (cases "a = v")
    case True
    then show ?thesis by simp
  next
    case False
    then show ?thesis using Cons by (simp add: option.map_comp comp_def)
  qed
qed

lemma firstSeenFrom_cong: "set seen = set seen' \<Longrightarrow> firstSeenFrom seen xs = firstSeenFrom seen' xs"
proof (induction xs arbitrary: seen seen')
  case Nil
  show ?case by simp
next
  case (Cons x xs)
  have m: "x \<in> set seen \<longleftrightarrow> x \<in> set seen'" using Cons.prems by simp
  have "set (seen @ [x]) = set (seen' @ [x])" using Cons.prems by simp
  then have "firstSeenFrom (seen @ [x]) xs = firstSeenFrom (seen' @ [x]) xs"
    by (rule Cons.IH)
  moreover have "firstSeenFrom seen xs = firstSeenFrom seen' xs"
    using Cons.prems by (rule Cons.IH)
  ultimately show ?case using m by simp
qed

lemma distinct_from:
  "map fst (filter (\<lambda>(v, i). indexOf (pre @ suf) v = Some i)
              (zip suf [length pre ..< length pre + length suf])) = firstSeenFrom pre suf"
proof (induction suf arbitrary: pre)
  case Nil
  then show ?case by simp
next
  case (Cons x rest)
  have z: "zip (x # rest) [length pre ..< length pre + length (x # rest)] =
      (x, length pre) # zip rest [length (pre @ [x]) ..< length (pre @ [x]) + length rest]"
  proof -
    have "[length pre ..< length pre + length (x # rest)] =
        length pre # [length (pre @ [x]) ..< length (pre @ [x]) + length rest]"
      by (simp add: upt_conv_Cons del: upt_Suc)
    then show ?thesis by (simp only: zip_Cons_Cons)
  qed
  have hd: "indexOf (pre @ x # rest) x = Some (length pre) \<longleftrightarrow> x \<notin> set pre"
  proof (cases "x \<in> set pre")
    case True
    then obtain i where "indexOf pre x = Some i" using indexOf_None[of pre x] by (cases "indexOf pre x") auto
    then show ?thesis using True indexOf_Some_less[of pre x i] by (simp add: indexOf_append)
  next
    case False
    then show ?thesis by (simp add: indexOf_append)
  qed
  have ih: "map fst (filter (\<lambda>(v, i). indexOf (pre @ x # rest) v = Some i)
      (zip rest [length (pre @ [x]) ..< length (pre @ [x]) + length rest])) =
      firstSeenFrom (pre @ [x]) rest"
    using Cons.IH[of "pre @ [x]"] by simp
  show ?case
  proof (cases "x \<in> set pre")
    case True
    have "firstSeenFrom (pre @ [x]) rest = firstSeenFrom pre rest"
      using True by (intro firstSeenFrom_cong) auto
    then show ?thesis unfolding z using True hd ih by simp
  next
    case False
    then show ?thesis unfolding z using hd ih by simp
  qed
qed

lemma getDistinctElements_firstSeen: "filter_js getDistinctElements xs = firstSeen xs"
  using distinct_from[of "[]" xs] by (simp add: filter_js_def getDistinctElements_def firstSeen_def)

lemma firstSeenFrom_set: "set (firstSeenFrom seen xs) = set xs - set seen"
  by (induction xs arbitrary: seen) auto

lemma firstSeenFrom_distinct: "distinct (firstSeenFrom seen xs)"
  by (induction xs arbitrary: seen) (auto simp: firstSeenFrom_set)

section \<open>The order of the children\<close>

lemma converter_order: "converter host0 rootSettings0 (View dvOrder) = Inr dataOrder"
  by (simp add: eval_rules dvOrder_def catsOrder_def msOrder_def dataOrder_def)

lemma converter_blank: "converter host0 rootSettings0 (View dvBlank) = Inr dataBlank"
  by (simp add: eval_rules dvBlank_def catsBlank_def msBlank_def dataBlank_def)

section \<open>Measure stages\<close>

lemma converter_rootFirst: "converter host0 rootSettings0 (View dvRootFirst) = Inr dataRootFirst"
  by (simp add: eval_rules dvRootFirst_def dataRootFirst_def)

section \<open>Null values and NaN\<close>

lemma forEach_fails:
  assumes "x \<in> set xs" and "\<And>s. body x s = Inl TypeError"
  shows "forEach body xs s0 = Inl TypeError"
  using assms(1)
proof (induction xs arbitrary: s0)
  case Nil
  then show ?case by simp
next
  case (Cons y ys)
  show ?case
  proof (cases "body y s0")
    case (Inl e)
    then show ?thesis using error_eq[of e] by simp
  next
    case (Inr s')
    then have "x \<noteq> y" using assms(2)[of s0] by auto
    then have "x \<in> set ys" using Cons.prems by simp
    from Cons.IH[OF this] show ?thesis using Inr by simp
  qed
qed

lemma build_total_fails:
  assumes "calAggregate cats ms ''none'' (length (cat_values (cats ! 0))) = Inl e"
  shows "build h rs cats ms = Inl TypeError"
  using assms error_eq[of e] by (simp add: build_def Let_def)

lemma build_legend_fails:
  assumes "CNull \<in> set (cat_values (cats ! 0))"
  shows "build h rs cats ms = Inl TypeError"
proof -
  let ?cv = "filter_js getDistinctElements (cat_values (cats ! 0))"
  have "set ?cv = set (cat_values (cats ! 0))"
    by (simp add: getDistinctElements_firstSeen firstSeen_def firstSeenFrom_set)
  then have "CNull \<in> set ?cv" using assms by simp
  then obtain i where i: "i < length ?cv" "?cv ! i = CNull"
    by (auto simp: in_set_conv_nth)
  have "legendStep h ?cv i s = Inl TypeError" for s
    using i(2) by (simp add: legendStep_def)
  moreover have "i \<in> set [0 ..< length ?cv]" using i(1) by simp
  ultimately have f: "forEach (legendStep h ?cv) [0 ..< length ?cv] [] = Inl TypeError"
    by (rule forEach_fails[rotated])
  show ?thesis
  proof (cases "calAggregate cats ms ''none'' (length (cat_values (cats ! 0)))")
    case (Inl e)
    then show ?thesis by (rule build_total_fails)
  next
    case (Inr a)
    then show ?thesis using f by (simp add: build_def Let_def)
  qed
qed

lemma converter_build_fails:
  assumes "categories dataView = Some cats" "cats \<noteq> []" "valueColumns dataView = Some ms" "ms \<noteq> []"
    and "build h rs cats ms = Inl e"
  shows "converter h rs (View dataView) = Inl TypeError"
  using assms error_eq[of e] by (simp add: converter_def)


lemma js_add_NaN [simp]: "js_add s NaN = NaN"
  by (cases s) simp_all





lemma categoryMessage_null:
  assumes "categories dataView = Some cats" "c \<in> set cats" "CNull \<in> set (cat_values c)"
  shows "categoryMessage dataView msg = Some errorMessageCategoryNull"
  using assms by (auto simp: categoryMessage_def list_ex_iff)

lemma converter_nullCategory: "converter host0 rootSettings0 (View dvNullCategory) = Inl TypeError"
  by (simp add: eval_rules dvNullCategory_def)







section \<open>The selection ids\<close>

lemma touches_refl: "touches i ns ns"
  by (simp add: touches_def)

lemma touches_trans: "touches i a b \<Longrightarrow> touches i b c \<Longrightarrow> touches i a c"
  by (simp add: touches_def)

lemma pushSel_touches: "pushSel ns i e = Inr ns' \<Longrightarrow> touches i ns ns'"
  by (auto simp: pushSel_def touches_def split: selection.splits)

lemma whileStages_touches:
  "whileStages leaf tok n k ns = Inr ns' \<Longrightarrow> touches n ns ns'"
proof (induction leaf tok n k ns rule: whileStages.induct)
  case (1 leaf tok nCounter kCounter ns)
  show ?case
    using "1.prems" "1.IH"
    by (subst (asm) whileStages.simps)
       (auto simp: Let_def touches_refl intro: touches_trans[OF pushSel_touches]
             dest: pushSel_touches split: if_splits sum.splits)
qed

lemma whileChildren_touches:
  "whileChildren child i k ns = Inr ns' \<Longrightarrow> touches i ns ns'"
proof (induction child i k ns rule: whileChildren.induct)
  case (1 child iCounter kCounter ns)
  show ?case
    using "1.prems" "1.IH"
    by (subst (asm) whileChildren.simps)
       (auto simp: Let_def touches_refl intro: touches_trans[OF pushSel_touches]
             dest: pushSel_touches split: if_splits sum.splits)
qed

lemma whileUntil_touches:
  "whileUntil parent child i k ns = Inr ns' \<Longrightarrow> touches i ns ns'"
proof (induction parent child i k ns rule: whileUntil.induct)
  case (1 parent child iCounter mCounter ns)
  show ?case
    using "1.prems" "1.IH"
    by (subst (asm) whileUntil.simps)
       (auto simp: Let_def touches_refl intro: touches_trans[OF pushSel_touches]
             dest: pushSel_touches split: if_splits sum.splits)
qed

lemma keeps_refl: "keeps S ns ns"
  by (simp add: keeps_def)

lemma strip_program:
  assumes "map stripSel ns' = map stripSel ns" "j < length ns"
  shows "program (ns' ! j) = program (ns ! j)"
proof -
  have "length ns' = length ns" using arg_cong[OF assms(1), of length] by simp
  then have "stripSel (ns' ! j) = stripSel (ns ! j)"
    using assms by (metis nth_map)
  then show ?thesis by (rule stripSel_eqD)
qed

lemma keeps_trans:
  assumes "keeps S a b" "keeps S b c"
  shows "keeps S a c"
proof -
  have "map stripSel b = map stripSel a" using assms(1) by (simp add: keeps_def)
  from arg_cong[OF this, of length] have l: "length b = length a" by simp
  show ?thesis
    unfolding keeps_def
  proof (intro conjI allI impI)
    show "map stripSel c = map stripSel a" using assms by (simp add: keeps_def)
  next
    fix j assume j: "j < length a" and h: "j = 0 \<or> program (a ! j) \<notin> S"
    have 1: "b ! j = a ! j" using assms(1) j h unfolding keeps_def by blast
    have 2: "j = 0 \<or> program (b ! j) \<notin> S" using h 1 by auto
    have "j < length b" using j l by simp
    then have "c ! j = b ! j" using assms(2) 2 unfolding keeps_def by blast
    then show "c ! j = a ! j" using 1 by simp
  qed
qed

lemma keeps_mono: "keeps S a b \<Longrightarrow> S \<subseteq> T \<Longrightarrow> keeps T a b"
  unfolding keeps_def by blast

lemma step_keeps:
  assumes "map stripSel t' = map stripSel t" "touches x t t'" "program (t ! x) \<notin> S \<longrightarrow> t' = t"
    and "x \<noteq> 0"
  shows "keeps S t t'"
  using assms unfolding keeps_def touches_def by metis

lemma forEach_keeps:
  assumes "forEach f xs s = Inr s'"
    and "\<And>x t t'. x \<in> set xs \<Longrightarrow> f x t = Inr t' \<Longrightarrow> keeps S (g t) (g t')"
  shows "keeps S (g s) (g s')"
  using assms
proof (induction xs arbitrary: s)
  case Nil
  then show ?case by (simp add: keeps_refl)
next
  case (Cons x xs)
  from Cons.prems(1) obtain t where t: "f x s = Inr t" and r: "forEach f xs t = Inr s'"
    by (auto split: sum.splits)
  have 1: "keeps S (g s) (g t)" using Cons.prems(2)[OF _ t] by simp
  have 2: "keeps S (g t) (g s')"
    by (rule Cons.IH[OF r]) (use Cons.prems(2) in auto)
  show ?case using 1 2 by (rule keeps_trans)
qed

lemma leafStep_keeps:
  assumes "leafStep leaf sel x nj = Inr nj'" "x \<noteq> 0" "leaf \<in> S"
  shows "keeps S (fst nj) (fst nj')"
proof (rule step_keeps[OF leafStep_strip[OF assms(1)] _ _ assms(2)])
  show "touches x (fst nj) (fst nj')"
    using assms(1) by (auto simp: leafStep_def touches_refl dest: pushSel_touches split: if_splits sum.splits)
  show "program (fst nj ! x) \<notin> S \<longrightarrow> fst nj' = fst nj"
    using assms(1,3) by (auto simp: leafStep_def split: if_splits)
qed

lemma stagesStep_keeps:
  assumes "stagesStep leaf sel x nj = Inr nj'" "x \<noteq> 0" "leaf \<in> S"
  shows "keeps S (fst nj) (fst nj')"
proof (rule step_keeps[OF stagesStep_strip[OF assms(1)] _ _ assms(2)])
  show "touches x (fst nj) (fst nj')"
    using assms(1) by (auto simp: stagesStep_def touches_refl dest: whileStages_touches split: if_splits sum.splits)
  show "program (fst nj ! x) \<notin> S \<longrightarrow> fst nj' = fst nj"
    using assms(1,3) by (auto simp: stagesStep_def split: if_splits)
qed

lemma childrenStep_keeps:
  assumes "childrenStep p c x ns = Inr ns'" "x \<noteq> 0" "p \<in> S"
  shows "keeps S ns ns'"
proof (rule step_keeps[OF childrenStep_strip[OF assms(1)] _ _ assms(2)])
  show "touches x ns ns'"
    using assms(1) by (auto simp: childrenStep_def touches_refl dest: whileChildren_touches split: if_splits)
  show "program (ns ! x) \<notin> S \<longrightarrow> ns' = ns"
    using assms(1,3) by (auto simp: childrenStep_def split: if_splits)
qed

lemma untilStep_keeps:
  assumes "untilStep p c x ns = Inr ns'" "x \<noteq> 0" "p \<in> S"
  shows "keeps S ns ns'"
proof (rule step_keeps[OF untilStep_strip[OF assms(1)] _ _ assms(2)])
  show "touches x ns ns'"
    using assms(1) by (auto simp: untilStep_def touches_refl dest: whileUntil_touches split: if_splits)
  show "program (ns ! x) \<notin> S \<longrightarrow> ns' = ns"
    using assms(1,3) by (auto simp: untilStep_def split: if_splits)
qed

lemma addSelection_keeps:
  assumes "addSelection catData mlen fc d sel = Inr d'"
  shows "keeps {levelName catData 1, levelName catData 2, levelName catData 3, levelName catData 4}
           (nodes d) (nodes d')"
proof -
  let ?S = "{levelName catData 1, levelName catData 2, levelName catData 3, levelName catData 4}"
  from assms obtain nj ns1 ns2 where
    s0: "(if mlen = 1 \<or> fc \<le> 1 then
            forEach (leafStep (levelName catData 1) sel) [1 ..< length (nodes d)] (nodes d, 0)
          else forEach (stagesStep (levelName catData 1) sel) [1 ..< length (nodes d)] (nodes d, 0)) = Inr nj"
    and s1: "(if length catData > 1 then catLen1 catData (fst nj) mlen fc else Inr (fst nj)) = Inr ns1"
    and s2: "(if length catData > 2 then catLen2 catData ns1 else Inr ns1) = Inr ns2"
    and s3: "(if length catData > 3 then catLen3 catData ns2 else Inr ns2) = Inr (nodes d')"
    unfolding addSelection_def Let_def
    by (auto split: sum.splits)
  have until: "keeps ?S ns ns'" if "forEach (untilStep p c) [1 ..< length ns] ns = Inr ns'" "p \<in> ?S"
    for p c ns ns'
    using forEach_keeps[where g="\<lambda>x. x", OF that(1), of ?S] untilStep_keeps that(2) by fastforce
  have children: "keeps ?S ns ns'" if "forEach (childrenStep p c) [1 ..< length ns] ns = Inr ns'" "p \<in> ?S"
    for p c ns ns'
    using forEach_keeps[where g="\<lambda>x. x", OF that(1), of ?S] childrenStep_keeps that(2) by fastforce
  have p0: "keeps ?S (nodes d) (fst nj)"
  proof (cases "mlen = 1 \<or> fc \<le> 1")
    case True
    then have f: "forEach (leafStep (levelName catData 1) sel) [1 ..< length (nodes d)] (nodes d, 0) = Inr nj"
      using s0 by simp
    show ?thesis
      using forEach_keeps[where g=fst, OF f, of ?S] leafStep_keeps by fastforce
  next
    case False
    then have f: "forEach (stagesStep (levelName catData 1) sel) [1 ..< length (nodes d)] (nodes d, 0) = Inr nj"
      using s0 by simp
    show ?thesis
      using forEach_keeps[where g=fst, OF f, of ?S] stagesStep_keeps by fastforce
  qed
  have p1: "keeps ?S (fst nj) ns1"
    using s1 until children by (auto simp: catLen1_def keeps_refl split: if_splits)
  have p2: "keeps ?S ns1 ns2"
    using s2 until by (auto simp: catLen2_def keeps_refl split: if_splits)
  have p3: "keeps ?S ns2 (nodes d')"
    using s3 until by (auto simp: catLen3_def keeps_refl split: if_splits)
  show ?thesis using keeps_trans[OF keeps_trans[OF keeps_trans[OF p0 p1] p2] p3] .
qed

lemma build_plainState:
  assumes "build h rs cats ms = Inr (env, st)"
  shows "plainState cats st"
proof -
  from assms obtain rootSum legend nm where
    e: "env = envOf cats ms legend"
    and r: "calNodesNLinks (envOf cats ms legend) [] 0 0 rootSum (initialState h rs cats ms rootSum nm) = Inr st"
    by (rule build_InrE)
  have c: "catDataset (envOf cats ms legend) = cats" by (simp add: envOf_def)
  show ?thesis
  proof (rule calNodesNLinks_state_invariant[OF r, where P="plainState cats"], goal_cases)
    case 1
    show ?case by simp
  next
    case 2
    show ?case by (simp add: plainState_def initialState_def rootNodeOf_def isHierarchy_def)
  next
    case (3 pid col iRow iCounter t t')
    then show ?case
      by (auto simp: c plainState_def stageStep_def Let_def push_node_def push_link_def
            isHierarchy_def split: sum.splits if_splits)
  next
    case (4 t)
    then show ?case by (simp add: plainState_def)
  next
    case (5 t level pid psum element col cid0 cid a)
    then show ?case
      by (simp add: c plainState_def hierPush_def push_node_def push_link_def plainNode_def)
  qed
qed

lemma converter_deep: "converter host0 rootSettings0 (View dvDeep) = Inr dataDeep"
  by (simp add: eval_rules dvDeep_def dataDeep_def)

lemma converter_selection:
  assumes c: "converter h rs (View dataView) = Inr d"
    and cs: "categories dataView = Some cats" "cats \<noteq> []"
    and vs: "valueColumns dataView = Some ms" "ms \<noteq> []"
  shows "selectionId (hd (nodes d)) = SelArray (rowTokens cats ms)"
    and "distinct (map cat_displayName cats) \<Longrightarrow> n \<in> set (hierarchyNodes dataView d) \<Longrightarrow>
         group n + 4 \<le> length cats \<Longrightarrow> selectionId n = SelArray []"
proof -
  let ?k = "length cats"
  let ?S = "{levelName cats 1, levelName cats 2, levelName cats 3, levelName cats 4}"
  from c cs vs obtain env st where
    b: "build h rs cats ms = Inr (env, st)"
    and a: "addSelection cats (length ms) (measureDataLengthCount env) (data st) (selectionTokens env) = Inr d"
    by (rule converter_InrE)
  have kp: "keeps ?S (nodes (data st)) (nodes d)" using addSelection_keeps[OF a] .
  have s: "map stripSel (nodes d) = map stripSel (nodes (data st))" using kp by (simp add: keeps_def)
  have l: "length (nodes d) = length (nodes (data st))" using arg_cong[OF s, of length] by simp
  from build_root[OF b] obtain rootSum nm rest where
    r: "nodes (data st) = rootNodeOf h rs cats ms rootSum nm # rest" by blast
  have "nodes d ! 0 = nodes (data st) ! 0" using kp r unfolding keeps_def by auto
  moreover have "nodes d \<noteq> []" using l r by auto
  ultimately have "hd (nodes d) = rootNodeOf h rs cats ms rootSum nm"
    using r by (simp add: hd_conv_nth)
  then show "selectionId (hd (nodes d)) = SelArray (rowTokens cats ms)"
    by (simp add: rootNodeOf_def)
  show "selectionId n = SelArray []"
    if dist: "distinct (map cat_displayName cats)" and n: "n \<in> set (hierarchyNodes dataView d)"
      and g: "group n + 4 \<le> length cats"
  proof -
    have k: "catCount dataView = ?k" using cs(1) by (simp add: catCount_def)
    have nh: "n \<in> set (nodes d)" "isHierarchy ?k n" using n k by (simp_all add: hierarchyNodes_def)
    then obtain j where j: "j < length (nodes d)" "nodes d ! j = n" by (auto simp: in_set_conv_nth)
    let ?n0 = "nodes (data st) ! j"
    have j0: "j < length (nodes (data st))" using j(1) l by simp
    have "stripSel (nodes d ! j) = stripSel ?n0" using s j(1) j0 by (metis nth_map)
    then have e: "group ?n0 = group n" using j(2) stripSel_eqD(2) by metis
    have "isHierarchy ?k ?n0" using nh(2) e by (simp add: isHierarchy_def)
    moreover have "?n0 \<in> set (nodes (data st))" using j0 by simp
    ultimately have p: "plainNode cats ?n0"
      using build_plainState[OF b] by (auto simp: plainState_def list_all_iff)
    have g1: "1 \<le> group n" using nh(2) by (simp add: isHierarchy_def)
    have ne: "cat_displayName (cats ! (group n - 1)) \<noteq> cat_displayName (cats ! (?k - i))"
      if "1 \<le> i" "i \<le> 4" for i
    proof -
      have a: "group n - 1 < ?k" "?k - i < ?k" "group n - 1 \<noteq> ?k - i" using g g1 that by auto
      have "map cat_displayName cats ! (group n - 1) \<noteq> map cat_displayName cats ! (?k - i)"
        using nth_eq_iff_index_eq[OF dist, of "group n - 1" "?k - i"] a by simp
      then show ?thesis using a by simp
    qed
    have "program ?n0 \<notin> ?S"
      using p e ne[of 1] ne[of 2] ne[of 3] ne[of 4] by (simp add: plainNode_def levelName_def)
    then have "nodes d ! j = ?n0" using kp j0 unfolding keeps_def by blast
    then show ?thesis using p j(2) by (simp add: plainNode_def)
  qed
qed

section \<open>The children in the selection arrays\<close>

lemma appended_refl: "appended st st []"
  by (simp add: appended_def)

lemma appended_trans: "appended a b xs \<Longrightarrow> appended b c ys \<Longrightarrow> appended a c (xs @ ys)"
  by (simp add: appended_def)

lemma nestedB_Nil: "nestedB k b pid []"
  by (simp add: nestedB_def)

lemma nestedB_group: "nestedB k b pid new \<Longrightarrow> q < length new \<Longrightarrow> b \<le> group (fst (new ! q))"
  by (simp add: nestedB_def nestedAt_def)

lemma nestedB_append:
  assumes x: "nestedB k b pid xs" and y: "nestedB k b pid ys"
  shows "nestedB k b pid (xs @ ys)"
  unfolding nestedB_def
proof (intro allI impI)
  fix q assume q: "q < length (xs @ ys)"
  show "nestedAt k b pid (xs @ ys) q"
  proof (cases "q < length xs")
    case True
    have a: "nestedAt k b pid xs q" using x True by (simp add: nestedB_def)
    have e: "(xs @ ys) ! t = xs ! t" if "t \<le> q" for t using that True by (simp add: nth_append)
    show ?thesis
      unfolding nestedAt_def
    proof (intro conjI impI)
      show "b \<le> group (fst ((xs @ ys) ! q))" using a e[of q] by (simp add: nestedAt_def)
      show "target (snd ((xs @ ys) ! q)) = node_id (fst ((xs @ ys) ! q))"
        using a e[of q] by (simp add: nestedAt_def)
      assume g: "group (fst ((xs @ ys) ! q)) \<le> k"
      show "if group (fst ((xs @ ys) ! q)) = b then source (snd ((xs @ ys) ! q)) = pid
          else \<exists>p<q. group (fst ((xs @ ys) ! p)) + 1 = group (fst ((xs @ ys) ! q)) \<and>
                      source (snd ((xs @ ys) ! q)) = node_id (fst ((xs @ ys) ! p)) \<and>
                      (\<forall>t. p < t \<and> t < q \<longrightarrow> group (fst ((xs @ ys) ! q)) \<le> group (fst ((xs @ ys) ! t)))"
      proof (cases "group (fst (xs ! q)) = b")
        case True
        then show ?thesis using a e[of q] g by (simp add: nestedAt_def)
      next
        case False
        from a False g e[of q] obtain p where p: "p < q"
          "group (fst (xs ! p)) + 1 = group (fst (xs ! q))"
          "source (snd (xs ! q)) = node_id (fst (xs ! p))"
          "\<forall>t. p < t \<and> t < q \<longrightarrow> group (fst (xs ! q)) \<le> group (fst (xs ! t))"
          by (auto simp: nestedAt_def)
        have "group (fst ((xs @ ys) ! p)) + 1 = group (fst ((xs @ ys) ! q)) \<and>
              source (snd ((xs @ ys) ! q)) = node_id (fst ((xs @ ys) ! p)) \<and>
              (\<forall>t. p < t \<and> t < q \<longrightarrow> group (fst ((xs @ ys) ! q)) \<le> group (fst ((xs @ ys) ! t)))"
          using p e by (simp add: less_imp_le)
        then show ?thesis using False e[of q] p(1) by auto
      qed
    qed
  next
    case False
    let ?n = "length xs"
    have q': "q - ?n < length ys" using q False by simp
    have a: "nestedAt k b pid ys (q - ?n)" using y q' by (simp add: nestedB_def)
    have e: "(xs @ ys) ! (t + ?n) = ys ! t" for t by (simp add: nth_append)
    have eq: "(xs @ ys) ! q = ys ! (q - ?n)" using False by (simp add: nth_append)
    have ge: "b \<le> group (fst ((xs @ ys) ! t))" if "t < length (xs @ ys)" for t
    proof (cases "t < ?n")
      case True
      then show ?thesis using nestedB_group[OF x True] by (simp add: nth_append)
    next
      case False
      then have "t - ?n < length ys" using that by simp
      from nestedB_group[OF y this] show ?thesis using False by (simp add: nth_append)
    qed
    show ?thesis
      unfolding nestedAt_def
    proof (intro conjI impI)
      show "b \<le> group (fst ((xs @ ys) ! q))" using a eq by (simp add: nestedAt_def)
      show "target (snd ((xs @ ys) ! q)) = node_id (fst ((xs @ ys) ! q))"
        using a eq by (simp add: nestedAt_def)
      assume g: "group (fst ((xs @ ys) ! q)) \<le> k"
      show "if group (fst ((xs @ ys) ! q)) = b then source (snd ((xs @ ys) ! q)) = pid
          else \<exists>p<q. group (fst ((xs @ ys) ! p)) + 1 = group (fst ((xs @ ys) ! q)) \<and>
                      source (snd ((xs @ ys) ! q)) = node_id (fst ((xs @ ys) ! p)) \<and>
                      (\<forall>t. p < t \<and> t < q \<longrightarrow> group (fst ((xs @ ys) ! q)) \<le> group (fst ((xs @ ys) ! t)))"
      proof (cases "group (fst (ys ! (q - ?n))) = b")
        case True
        then show ?thesis using a eq g by (simp add: nestedAt_def)
      next
        case F: False
        from a F g eq obtain p where p: "p < q - ?n"
          "group (fst (ys ! p)) + 1 = group (fst (ys ! (q - ?n)))"
          "source (snd (ys ! (q - ?n))) = node_id (fst (ys ! p))"
          "\<forall>t. p < t \<and> t < q - ?n \<longrightarrow> group (fst (ys ! (q - ?n))) \<le> group (fst (ys ! t))"
          by (auto simp: nestedAt_def)
        have 1: "p + ?n < q" using p(1) by simp
        have 2: "group (fst ((xs @ ys) ! (p + ?n))) + 1 = group (fst ((xs @ ys) ! q))"
          "source (snd ((xs @ ys) ! q)) = node_id (fst ((xs @ ys) ! (p + ?n)))"
          using p(2,3) e[of p] eq by simp_all
        have 3: "group (fst ((xs @ ys) ! q)) \<le> group (fst ((xs @ ys) ! t))"
          if "p + ?n < t" "t < q" for t
        proof -
          have "p < t - ?n" "t - ?n < q - ?n" using that by auto
          then have "group (fst (ys ! (q - ?n))) \<le> group (fst (ys ! (t - ?n)))" using p(4) by simp
          moreover have "(xs @ ys) ! t = ys ! (t - ?n)" using that(1) by (simp add: nth_append)
          ultimately show ?thesis using eq by simp
        qed
        show ?thesis using F eq 1 2 3 by auto
      qed
    qed
  qed
qed

lemma nestedB_Cons:
  assumes d: "nestedB k (b + 1) (node_id c) deeper"
    and c: "group c = b" "source cl = pid" "target cl = node_id c"
  shows "nestedB k b pid ((c, cl) # deeper)"
  unfolding nestedB_def
proof (intro allI impI)
  fix q assume q: "q < length ((c, cl) # deeper)"
  show "nestedAt k b pid ((c, cl) # deeper) q"
  proof (cases q)
    case 0
    then show ?thesis using c by (simp add: nestedAt_def)
  next
    case (Suc q')
    have q': "q' < length deeper" using q Suc by simp
    have a: "nestedAt k (b + 1) (node_id c) deeper q'" using d q' by (simp add: nestedB_def)
    let ?n = "fst (deeper ! q')" and ?l = "snd (deeper ! q')"
    have gb: "b + 1 \<le> group ?n" using a by (simp add: nestedAt_def)
    have ge: "b + 1 \<le> group (fst (deeper ! t))" if "t < length deeper" for t
      using nestedB_group[OF d that] .
    have "nestedAt k b pid ((c, cl) # deeper) (Suc q')"
      unfolding nestedAt_def
    proof (intro conjI impI)
      show "b \<le> group (fst (((c, cl) # deeper) ! Suc q'))" using gb by simp
      show "target (snd (((c, cl) # deeper) ! Suc q')) = node_id (fst (((c, cl) # deeper) ! Suc q'))"
        using a by (simp add: nestedAt_def)
      assume g: "group (fst (((c, cl) # deeper) ! Suc q')) \<le> k"
      have "\<exists>p<Suc q'. group (fst (((c, cl) # deeper) ! p)) + 1 = group ?n \<and>
                      source ?l = node_id (fst (((c, cl) # deeper) ! p)) \<and>
                      (\<forall>t. p < t \<and> t < Suc q' \<longrightarrow> group ?n \<le> group (fst (((c, cl) # deeper) ! t)))"
      proof (cases "group ?n = b + 1")
        case True
        have s: "source ?l = node_id c" using a True g by (simp add: nestedAt_def)
        have "group ?n \<le> group (fst (((c, cl) # deeper) ! t))" if lt: "0 < t" "t < Suc q'" for t
        proof -
          from lt(1) obtain t' where t': "t = Suc t'" by (cases t) simp_all
          then have "t' < length deeper" using lt(2) q' by simp
          from ge[OF this] show ?thesis using True t' by simp
        qed
        then show ?thesis using True s c(1) by (intro exI[of _ 0]) auto
      next
        case False
        from a False g obtain p where p: "p < q'"
          "group (fst (deeper ! p)) + 1 = group ?n"
          "source ?l = node_id (fst (deeper ! p))"
          "\<forall>t. p < t \<and> t < q' \<longrightarrow> group ?n \<le> group (fst (deeper ! t))"
          by (auto simp: nestedAt_def)
        have "group ?n \<le> group (fst (((c, cl) # deeper) ! t))" if lt: "Suc p < t" "t < Suc q'" for t
        proof -
          from lt(1) obtain t' where t': "t = Suc t'" by (cases t) simp_all
          then have "p < t'" "t' < q'" using lt by auto
          then show ?thesis using p(4) t' by simp
        qed
        then show ?thesis using p(1,2,3) by (intro exI[of _ "Suc p"]) auto
      qed
      then show "if group (fst (((c, cl) # deeper) ! Suc q')) = b
          then source (snd (((c, cl) # deeper) ! Suc q')) = pid
          else \<exists>p<Suc q'. group (fst (((c, cl) # deeper) ! p)) + 1 = group (fst (((c, cl) # deeper) ! Suc q')) \<and>
                      source (snd (((c, cl) # deeper) ! Suc q')) = node_id (fst (((c, cl) # deeper) ! p)) \<and>
                      (\<forall>t. p < t \<and> t < Suc q' \<longrightarrow>
                         group (fst (((c, cl) # deeper) ! Suc q')) \<le> group (fst (((c, cl) # deeper) ! t)))"
        using gb by simp
    qed
    then show ?thesis using Suc by simp
  qed
qed

lemma measureStages_appended:
  assumes "measureStages env cid level pid st = Inr st'"
  shows "\<exists>new. appended st st' new \<and> idGen st' = idGen st \<and>
           list_all (\<lambda>nl. group (fst nl) = level + 1 \<and> target (snd nl) = node_id (fst nl)) new"
  using assms
proof (rule measureStages_invariant[where P="\<lambda>t. \<exists>new. appended st t new \<and> idGen t = idGen st \<and>
           list_all (\<lambda>nl. group (fst nl) = level + 1 \<and> target (snd nl) = node_id (fst nl)) new"],
    goal_cases)
  case 1
  show ?case using appended_refl[of st] by force
next
  case (2 col iRow iCounter t t')
  from 2(1) obtain new where n: "appended st t new" "idGen t = idGen st"
    "list_all (\<lambda>nl. group (fst nl) = level + 1 \<and> target (snd nl) = node_id (fst nl)) new"
    by blast
  have "\<exists>x. appended t t' x \<and> idGen t' = idGen t \<and>
          list_all (\<lambda>nl. group (fst nl) = level + 1 \<and> target (snd nl) = node_id (fst nl)) x"
  proof (cases "m_root (measureData env ! iCounter)")
    case True
    then have "t' = t" using 2(3) by (simp add: stageStep_def Let_def)
    then show ?thesis using appended_refl[of t] by force
  next
    case False
    from 2(3) False obtain nd lk where
      "nodes (data t') = nodes (data t) @ [nd]" "links (data t') = links (data t) @ [lk]"
      "idGen t' = idGen t" "group nd = level + 1" "target lk = node_id nd"
      by (auto simp: stageStep_def Let_def push_node_def push_link_def split: sum.splits)
    then have "appended t t' [(nd, lk)] \<and> idGen t' = idGen t \<and>
        list_all (\<lambda>nl. group (fst nl) = level + 1 \<and> target (snd nl) = node_id (fst nl)) [(nd, lk)]"
      by (simp add: appended_def)
    then show ?thesis by blast
  qed
  then obtain x where x: "appended t t' x" "idGen t' = idGen t"
    "list_all (\<lambda>nl. group (fst nl) = level + 1 \<and> target (snd nl) = node_id (fst nl)) x"
    by blast
  have "appended st t' (new @ x) \<and> idGen t' = idGen st \<and>
      list_all (\<lambda>nl. group (fst nl) = level + 1 \<and> target (snd nl) = node_id (fst nl)) (new @ x)"
    using appended_trans[OF n(1) x(1)] n(2,3) x(2,3) by simp
  then show ?case by blast
next
  case (3 t)
  then show ?case by (simp add: appended_def)
qed

lemma calNodesNLinks_nested:
  assumes run: "calNodesNLinks env cid level pid psum st = Inr st'"
  shows "\<exists>new. appended st st' new \<and> nestedB (length (catDataset env)) (level + 1) pid new"
proof (rule calNodesNLinks_run_induct
    [OF run, where P="\<lambda>cid level pid psum st st'.
          \<exists>new. appended st st' new \<and> nestedB (length (catDataset env)) (level + 1) pid new"
       and Q="\<lambda>cid level pid psum els st st'.
          \<exists>new. appended st st' new \<and> nestedB (length (catDataset env)) (level + 1) pid new"],
    goal_cases)
  case (1 cid level pid psum st st')
  have "\<exists>new. appended st st' new \<and> idGen st' = idGen st \<and>
           list_all (\<lambda>nl. group (fst nl) = level + 1 \<and> target (snd nl) = node_id (fst nl)) new"
  proof (cases "length (measureData env) > 1 \<and> measureDataLengthCount env > 1")
    case True
    then show ?thesis using 1(2) measureStages_appended by simp
  next
    case False
    then have "st' = st" using 1(2) by (auto split: if_splits)
    then show ?thesis using appended_refl[of st] by force
  qed
  then obtain new where n: "appended st st' new"
    "list_all (\<lambda>nl. group (fst nl) = level + 1 \<and> target (snd nl) = node_id (fst nl)) new"
    by blast
  have "nestedB (length (catDataset env)) (level + 1) pid new"
    using n(2) 1(1) by (auto simp: nestedB_def nestedAt_def list_all_length)
  then show ?case using n(1) by blast
next
  case (2 cid level pid psum st els st')
  then show ?case by simp
next
  case (3 cid level pid psum st)
  show ?case using appended_refl[of st] nestedB_Nil by blast
next
  case (4 cid level pid psum element rest st col newCid a st2 st')
  let ?k = "length (catDataset env)"
  let ?H = "hierPush env level pid psum element col newCid a st"
  let ?c = "\<lparr>node_id = idGen st, program = cat_displayName (catDataset env ! level),
        name = ofCat element, group = level + 1, numberOfLeads = Num a,
        percentage = js_div a psum, description = newCid, color = col,
        selectionId = SelArray []\<rparr>"
  let ?cl = "\<lparr>source = pid, target = idGen st, link_value = Num a, Activity = []\<rparr>"
  have aH: "appended st ?H [(?c, ?cl)]"
    by (simp add: hierPush_def push_node_def push_link_def appended_def)
  from 4(6) obtain deeper where d: "appended ?H st2 deeper" "nestedB ?k (level + 1 + 1) (idGen st) deeper"
    by blast
  from 4(8) obtain restnew where r: "appended st2 st' restnew" "nestedB ?k (level + 1) pid restnew"
    by blast
  have "nestedB ?k (level + 1) pid ((?c, ?cl) # deeper)"
    by (rule nestedB_Cons) (use d(2) in simp_all)
  then have n: "nestedB ?k (level + 1) pid (((?c, ?cl) # deeper) @ restnew)"
    using r(2) by (rule nestedB_append)
  have "appended st st' (([(?c, ?cl)] @ deeper) @ restnew)"
    using appended_trans[OF appended_trans[OF aH d(1)] r(1)] .
  then show ?case using n by auto
qed

lemma build_nested:
  assumes "build h rs cats ms = Inr (env, st)"
  obtains prs where "nodes (data st) = map fst prs" "links (data st) = map snd prs"
    "nestedB (length cats) 0 0 prs" "prs \<noteq> []" "group (fst (prs ! 0)) = 0"
proof -
  from assms obtain rootSum legend nm where
    e: "env = envOf cats ms legend"
    and r: "calNodesNLinks (envOf cats ms legend) [] 0 0 rootSum (initialState h rs cats ms rootSum nm) = Inr st"
    by (rule build_InrE)
  let ?r = "rootNodeOf h rs cats ms rootSum nm"
  let ?l = "\<lparr>source = 0, target = 0, link_value = Num rootSum, Activity = []\<rparr>"
  from calNodesNLinks_nested[OF r] obtain new where
    a: "appended (initialState h rs cats ms rootSum nm) st new" and n: "nestedB (length cats) 1 0 new"
    by (auto simp: envOf_def)
  have 1: "nodes (data st) = map fst ((?r, ?l) # new)" "links (data st) = map snd ((?r, ?l) # new)"
    using a by (simp_all add: appended_def initialState_def)
  have 2: "nestedB (length cats) 0 0 ((?r, ?l) # new)"
    by (rule nestedB_Cons) (use n in \<open>simp_all add: rootNodeOf_def\<close>)
  show ?thesis
    using that[OF 1 2] by (simp add: rootNodeOf_def)
qed

lemma isArr_iff: "isArr n \<longleftrightarrow> (\<exists>xs. selectionId n = SelArray xs)"
  by (auto simp: isArr_def split: selection.splits)

lemma pushedNode_Nil: "isArr n \<Longrightarrow> pushedNode n [] n"
  by (auto simp: isArr_def pushedNode_def split: selection.splits)

lemma pushedNode_trans:
  "pushedNode a js b \<Longrightarrow> pushedNode b ks c \<Longrightarrow> pushedNode a (js @ ks) c"
  by (auto simp: pushedNode_def split: selection.splits)

lemma pushedNode_facts:
  "pushedNode a js b \<Longrightarrow> program b = program a \<and> isArr b \<and> isArr a \<and> stripSel b = stripSel a"
  by (auto simp: pushedNode_def isArr_def stripSel_def split: selection.splits)

lemma pushed_refl: "isArr (ns ! i) \<Longrightarrow> pushed ns i [] ns"
  by (simp add: pushed_def pushedNode_Nil)

lemma pushed_trans:
  assumes "pushed a i js b" "pushed b i ks c" "i < length a"
  shows "pushed a i (js @ ks) c"
proof -
  have l: "length b = length a" using assms(1) by (metis pushed_def length_list_update)
  have "pushedNode (a ! i) (js @ ks) (c ! i)"
    using assms(1,2) pushedNode_trans unfolding pushed_def by blast
  moreover have "c = a[i := c ! i]"
  proof -
    have "c = b[i := c ! i]" using assms(2) by (simp add: pushed_def)
    also have "b = a[i := b ! i]" using assms(1) by (simp add: pushed_def)
    finally show ?thesis by simp
  qed
  ultimately show ?thesis by (simp add: pushed_def)
qed

lemma pushed_facts:
  assumes "pushed ns i js ns'" "i < length ns"
  shows "length ns' = length ns" "map program ns' = map program ns"
    "\<And>j. j \<noteq> i \<Longrightarrow> ns' ! j = ns ! j" "\<And>j. j < length ns \<Longrightarrow> isArr (ns ! j) \<Longrightarrow> isArr (ns' ! j)"
proof -
  have e: "ns' = ns[i := ns' ! i]" and p: "pushedNode (ns ! i) js (ns' ! i)"
    using assms(1) by (simp_all add: pushed_def)
  show l: "length ns' = length ns" using e by (metis length_list_update)
  show o: "\<And>j. j \<noteq> i \<Longrightarrow> ns' ! j = ns ! j" using e by (metis nth_list_update_neq)
  show "map program ns' = map program ns"
  proof (rule nth_equalityI)
    show "length (map program ns') = length (map program ns)" using l by simp
  next
    fix j assume "j < length (map program ns')"
    then have j: "j < length ns" using l by simp
    show "map program ns' ! j = map program ns ! j"
      using j l o[of j] pushedNode_facts[OF p] by (cases "j = i") simp_all
  qed
  show "\<And>j. j < length ns \<Longrightarrow> isArr (ns ! j) \<Longrightarrow> isArr (ns' ! j)"
    using o pushedNode_facts[OF p] by metis
qed

lemma pushSel_pushed:
  assumes "pushSel ns i (Ref k) = Inr ns'" "i < length ns"
  shows "pushed ns i [k] ns'"
  using assms by (auto simp: pushSel_def pushed_def pushedNode_def split: selection.splits)

lemma untilFrom_step:
  assumes "Suc m < length prog"
  shows "untilFrom parent child prog m =
           (if prog ! Suc m = parent then []
            else (if prog ! Suc m = child then [Suc m] else []) @ untilFrom parent child prog (Suc m))"
proof -
  let ?p = "\<lambda>m j. prog ! j = child \<and> (\<forall>t. m < t \<and> t \<le> j \<longrightarrow> prog ! t \<noteq> parent)"
  have u: "[Suc m ..< length prog] = Suc m # [Suc (Suc m) ..< length prog]"
    using assms by (simp add: upt_conv_Cons)
  show ?thesis
  proof (cases "prog ! Suc m = parent")
    case True
    have "filter (?p m) [Suc m ..< length prog] = []"
      unfolding filter_empty_conv using True by auto
    then show ?thesis using True by (simp add: untilFrom_def)
  next
    case False
    have h: "?p m (Suc m) \<longleftrightarrow> prog ! Suc m = child"
      using False by (auto simp: le_Suc_eq)
    have t: "filter (?p m) [Suc (Suc m) ..< length prog] = filter (?p (Suc m)) [Suc (Suc m) ..< length prog]"
    proof (rule filter_cong[OF refl])
      fix j assume "j \<in> set [Suc (Suc m) ..< length prog]"
      then have j: "Suc m < j" by simp
      show "?p m j = ?p (Suc m) j"
      proof -
        have "(\<forall>t. m < t \<and> t \<le> j \<longrightarrow> prog ! t \<noteq> parent) \<longleftrightarrow>
              (\<forall>t. Suc m < t \<and> t \<le> j \<longrightarrow> prog ! t \<noteq> parent)"
          using False j by (metis Suc_lessI less_SucI Suc_lessD)
        then show ?thesis by simp
      qed
    qed
    show ?thesis
      unfolding untilFrom_def u using False h t by simp
  qed
qed

lemma untilFrom_last: "Suc m = length prog \<Longrightarrow> untilFrom parent child prog m = []"
  by (simp add: untilFrom_def)

lemma childrenFrom_step:
  assumes "Suc m < length prog"
  shows "childrenFrom child prog m =
           (if prog ! Suc m = child then Suc m # childrenFrom child prog (Suc m) else [])"
proof -
  let ?p = "\<lambda>m j. \<forall>t. m < t \<and> t \<le> j \<longrightarrow> prog ! t = child"
  have u: "[Suc m ..< length prog] = Suc m # [Suc (Suc m) ..< length prog]"
    using assms by (simp add: upt_conv_Cons)
  show ?thesis
  proof (cases "prog ! Suc m = child")
    case False
    have "filter (?p m) [Suc m ..< length prog] = []"
      unfolding filter_empty_conv using False by auto
    then show ?thesis using False by (simp add: childrenFrom_def)
  next
    case True
    have h: "?p m (Suc m)"
      using True by (auto simp: le_Suc_eq)
    have t: "filter (?p m) [Suc (Suc m) ..< length prog] = filter (?p (Suc m)) [Suc (Suc m) ..< length prog]"
    proof (rule filter_cong[OF refl])
      fix j assume "j \<in> set [Suc (Suc m) ..< length prog]"
      then have j: "Suc m < j" by simp
      show "?p m j = ?p (Suc m) j"
        using True j by (metis Suc_lessI less_SucI Suc_lessD)
    qed
    show ?thesis
      unfolding childrenFrom_def u using True h t by simp
  qed
qed

lemma childrenFrom_last: "Suc m = length prog \<Longrightarrow> childrenFrom child prog m = []"
  by (simp add: childrenFrom_def)

lemma whileUntil_pushed:
  assumes "whileUntil parent child i m ns = Inr ns'" "i \<le> m" "i < length ns" "isArr (ns ! i)"
    and "\<forall>j. m < j \<and> j < length ns \<and> program (ns ! j) = child \<longrightarrow> isArr (ns ! j)"
  shows "pushed ns i (untilFrom parent child (map program ns) m) ns'"
  using assms
proof (induction parent child i m ns rule: whileUntil.induct)
  case (1 parent child i m ns)
  let ?k = "Suc m"
  let ?prog = "map program ns"
  have unf: "whileUntil parent child i m ns =
     (if \<not> ?k < length ns then Inl TypeError
      else if program (ns ! ?k) \<noteq> parent then
        (case (if program (ns ! ?k) = child then pushSel ns i (selRef ns ?k) else Inr ns) of
           Inl e \<Rightarrow> Inl e
         | Inr ns' \<Rightarrow> if ?k = length ns' - 1 then Inr ns' else whileUntil parent child i ?k ns')
      else Inr ns)"
    by (subst whileUntil.simps) (simp add: Let_def)
  note run = "1.prems"(1)[unfolded unf]
  have k: "?k < length ns"
    using run by (auto split: if_splits)
  have st: "untilFrom parent child ?prog m =
           (if program (ns ! ?k) = parent then []
            else (if program (ns ! ?k) = child then [?k] else []) @ untilFrom parent child ?prog ?k)"
    using untilFrom_step[of m ?prog parent child] k by simp
  show ?case
  proof (cases "program (ns ! ?k) = parent")
    case True
    then have "ns' = ns"
      using run k by simp
    then show ?thesis using True st pushed_refl[OF "1.prems"(4)] by simp
  next
    case False
    from run k False obtain ns1 where
      s1: "(if program (ns ! ?k) = child then pushSel ns i (selRef ns ?k) else Inr ns) = Inr ns1"
      and rest: "(if ?k = length ns1 - 1 then Inr ns1 else whileUntil parent child i ?k ns1) = Inr ns'"
      by (cases "if program (ns ! ?k) = child then pushSel ns i (selRef ns ?k) else Inr ns") simp_all
    have p1: "pushed ns i (if program (ns ! ?k) = child then [?k] else []) ns1"
    proof (cases "program (ns ! ?k) = child")
      case True
      then have "isArr (ns ! ?k)" using "1.prems"(5) k by simp
      then have "selRef ns ?k = Ref ?k" by (auto simp: selRef_def isArr_def split: selection.splits)
      then show ?thesis using s1 True pushSel_pushed[OF _ "1.prems"(3)] by simp
    next
      case False
      then show ?thesis using s1 pushed_refl[OF "1.prems"(4)] by simp
    qed
    note f = pushed_facts[OF p1 "1.prems"(3)]
    show ?thesis
    proof (cases "?k = length ns1 - 1")
      case True
      then have "ns' = ns1" using rest by simp
      moreover have "untilFrom parent child ?prog ?k = []"
        using True f(1) k by (intro untilFrom_last) simp
      ultimately show ?thesis using p1 st False by simp
    next
      case nl: False
      then have rec: "whileUntil parent child i ?k ns1 = Inr ns'" using rest by simp
      have a: "isArr (ns1 ! i)" using f(4)[OF "1.prems"(3,4)] .
      have b: "\<forall>j. ?k < j \<and> j < length ns1 \<and> program (ns1 ! j) = child \<longrightarrow> isArr (ns1 ! j)"
      proof (intro allI impI)
        fix j assume j: "?k < j \<and> j < length ns1 \<and> program (ns1 ! j) = child"
        then have "j \<noteq> i" using "1.prems"(2) by simp
        then have "ns1 ! j = ns ! j" using f(3) by simp
        then show "isArr (ns1 ! j)" using j "1.prems"(5) f(1) by simp
      qed
      have "pushed ns1 i (untilFrom parent child (map program ns1) ?k) ns'"
        using "1.IH"[of ?k ns1] s1 nl rec k False "1.prems"(2,3) f(1) a b by simp
      then have "pushed ns1 i (untilFrom parent child ?prog ?k) ns'" using f(2) by simp
      then show ?thesis using pushed_trans[OF p1 _ "1.prems"(3)] st False by simp
    qed
  qed
qed

lemma whileChildren_pushed:
  assumes "whileChildren child i m ns = Inr ns'" "i \<le> m" "i < length ns" "isArr (ns ! i)"
    and "\<forall>j. m < j \<and> j < length ns \<and> program (ns ! j) = child \<longrightarrow> isArr (ns ! j)"
  shows "pushed ns i (childrenFrom child (map program ns) m) ns'"
  using assms
proof (induction child i m ns rule: whileChildren.induct)
  case (1 child i m ns)
  let ?k = "Suc m"
  let ?prog = "map program ns"
  have unf: "whileChildren child i m ns =
     (if \<not> ?k < length ns then Inl TypeError
      else if program (ns ! ?k) = child then
        (case pushSel ns i (selRef ns ?k) of
           Inl e \<Rightarrow> Inl e
         | Inr ns' \<Rightarrow> if ?k = length ns' - 1 then Inr ns' else whileChildren child i ?k ns')
      else Inr ns)"
    by (subst whileChildren.simps) (simp add: Let_def)
  note run = "1.prems"(1)[unfolded unf]
  have k: "?k < length ns"
    using run by (auto split: if_splits)
  have st: "childrenFrom child ?prog m =
           (if program (ns ! ?k) = child then ?k # childrenFrom child ?prog ?k else [])"
    using childrenFrom_step[of m ?prog child] k by simp
  show ?case
  proof (cases "program (ns ! ?k) = child")
    case False
    then have "ns' = ns"
      using run k by simp
    then show ?thesis using False st pushed_refl[OF "1.prems"(4)] by simp
  next
    case True
    from run k True obtain ns1 where
      s1: "pushSel ns i (selRef ns ?k) = Inr ns1"
      and rest: "(if ?k = length ns1 - 1 then Inr ns1 else whileChildren child i ?k ns1) = Inr ns'"
      by (cases "pushSel ns i (selRef ns ?k)") simp_all
    have "isArr (ns ! ?k)" using "1.prems"(5) k True by simp
    then have "selRef ns ?k = Ref ?k" by (auto simp: selRef_def isArr_def split: selection.splits)
    then have p1: "pushed ns i [?k] ns1" using s1 pushSel_pushed[OF _ "1.prems"(3)] by simp
    note f = pushed_facts[OF p1 "1.prems"(3)]
    show ?thesis
    proof (cases "?k = length ns1 - 1")
      case l: True
      then have "ns' = ns1" using rest by simp
      moreover have "childrenFrom child ?prog ?k = []"
        using l f(1) k by (intro childrenFrom_last) simp
      ultimately show ?thesis using p1 st True by simp
    next
      case nl: False
      then have rec: "whileChildren child i ?k ns1 = Inr ns'" using rest by simp
      have a: "isArr (ns1 ! i)" using f(4)[OF "1.prems"(3,4)] .
      have b: "\<forall>j. ?k < j \<and> j < length ns1 \<and> program (ns1 ! j) = child \<longrightarrow> isArr (ns1 ! j)"
      proof (intro allI impI)
        fix j assume j: "?k < j \<and> j < length ns1 \<and> program (ns1 ! j) = child"
        then have "j \<noteq> i" using "1.prems"(2) by simp
        then have "ns1 ! j = ns ! j" using f(3) by simp
        then show "isArr (ns1 ! j)" using j "1.prems"(5) f(1) by simp
      qed
      have "pushed ns1 i (childrenFrom child (map program ns1) ?k) ns'"
        using "1.IH"[of ?k ns1] s1 nl rec k True "1.prems"(2,3) f(1) a b by simp
      then have "pushed ns1 i (childrenFrom child ?prog ?k) ns'" using f(2) by simp
      then show ?thesis using pushed_trans[OF p1 _ "1.prems"(3), of "childrenFrom child ?prog ?k" ns'] st True by simp
    qed
  qed
qed

lemma forEach_upt_invariant:
  assumes "forEach f [a ..< b] s = Inr s'" "I a s"
    and "\<And>x t t'. a \<le> x \<Longrightarrow> x < b \<Longrightarrow> I x t \<Longrightarrow> f x t = Inr t' \<Longrightarrow> I (Suc x) t'"
  shows "I (max a b) s'"
  using assms
proof (induction "b - a" arbitrary: a s)
  case 0
  then show ?case by (simp add: max_def)
next
  case (Suc n)
  then have ab: "a < b" by simp
  then have u: "[a ..< b] = a # [Suc a ..< b]" by (simp add: upt_conv_Cons)
  from Suc.prems(1) obtain t where t: "f a s = Inr t" and r: "forEach f [Suc a ..< b] t = Inr s'"
    unfolding u by (auto split: sum.splits)
  have "I (Suc a) t" using Suc.prems(3)[OF _ ab Suc.prems(2) t] by simp
  moreover have "n = b - Suc a" using Suc.hyps(2) by simp
  ultimately have "I (max (Suc a) b) s'"
    using Suc.hyps(1)[OF _ r] Suc.prems(3) by (metis Suc_leD)
  then show ?case using ab by (simp add: max_def)
qed

lemma passed_facts:
  assumes "passed parent kids u ns cur"
  shows "length cur = length ns" "map program cur = map program ns"
    "\<And>j. j < length ns \<Longrightarrow> u \<le> j \<Longrightarrow> cur ! j = ns ! j"
    "\<And>j. j < length ns \<Longrightarrow> isArr (ns ! j) \<Longrightarrow> isArr (cur ! j)"
    "map stripSel cur = map stripSel ns"
proof -
  show l: "length cur = length ns" using assms by (simp add: passed_def)
  have e: "program (cur ! j) = program (ns ! j) \<and> (isArr (ns ! j) \<longrightarrow> isArr (cur ! j)) \<and>
           stripSel (cur ! j) = stripSel (ns ! j)"
    if "j < length ns" for j
  proof (cases "1 \<le> j \<and> j < u \<and> program (ns ! j) = parent")
    case True
    then have "pushedNode (ns ! j) (kids j) (cur ! j)" using assms that by (simp add: passed_def)
    then show ?thesis using pushedNode_facts by blast
  next
    case False
    then have "cur ! j = ns ! j" using assms that unfolding passed_def by meson
    then show ?thesis by simp
  qed
  show "map program cur = map program ns"
    by (rule nth_equalityI) (use l e in simp_all)
  show "map stripSel cur = map stripSel ns"
    by (rule nth_equalityI) (use l e in simp_all)
  show "\<And>j. j < length ns \<Longrightarrow> u \<le> j \<Longrightarrow> cur ! j = ns ! j"
    using assms unfolding passed_def by (meson not_le)
  show "\<And>j. j < length ns \<Longrightarrow> isArr (ns ! j) \<Longrightarrow> isArr (cur ! j)"
    using e by simp
qed

lemma pass_generic:
  assumes run: "forEach step [1 ..< length ns] ns = Inr ns'"
    and step: "\<And>u cur cur'. 1 \<le> u \<Longrightarrow> u < length ns \<Longrightarrow> length cur = length ns \<Longrightarrow>
        map program cur = map program ns \<Longrightarrow> cur ! u = ns ! u \<Longrightarrow>
        (\<forall>j<length ns. isArr (ns ! j) \<longrightarrow> isArr (cur ! j)) \<Longrightarrow> step u cur = Inr cur' \<Longrightarrow>
        (if program (ns ! u) = parent then pushed cur u (kids u) cur' else cur' = cur)"
  shows "passed parent kids (length ns) ns ns'"
proof -
  have 0: "passed parent kids 1 ns ns" by (simp add: passed_def)
  have s: "passed parent kids (Suc u) ns cur'"
    if u: "1 \<le> u" "u < length ns" and p: "passed parent kids u ns cur" and r: "step u cur = Inr cur'"
    for u cur cur'
  proof -
    note f = passed_facts[OF p]
    have cu: "cur ! u = ns ! u" using f(3)[OF u(2)] by simp
    have st: "if program (ns ! u) = parent then pushed cur u (kids u) cur' else cur' = cur"
      using step[OF u f(1) f(2) cu _ r] f(4) by simp
    show ?thesis
    proof (cases "program (ns ! u) = parent")
      case False
      then have "cur' = cur" using st by simp
      then show ?thesis using p False unfolding passed_def
        by (auto simp: less_Suc_eq)
    next
      case True
      then have pu: "pushed cur u (kids u) cur'" using st by simp
      have uc: "u < length cur" using u(2) f(1) by simp
      note g = pushed_facts[OF pu uc]
      have a: "pushedNode (ns ! u) (kids u) (cur' ! u)"
        using pu cu by (simp add: pushed_def)
      show ?thesis
        unfolding passed_def
      proof (intro conjI allI impI)
        show "length cur' = length ns" using g(1) f(1) by simp
      next
        fix i assume i: "i < length ns"
        show "if 1 \<le> i \<and> i < Suc u \<and> program (ns ! i) = parent
              then pushedNode (ns ! i) (kids i) (cur' ! i) else cur' ! i = ns ! i"
        proof (cases "i = u")
          case True
          then show ?thesis using a u(1) \<open>program (ns ! u) = parent\<close> by simp
        next
          case False
          then have "cur' ! i = cur ! i" using g(3) by simp
          moreover have "i < Suc u \<longleftrightarrow> i < u" using False by auto
          ultimately show ?thesis using p i unfolding passed_def by simp
        qed
      qed
    qed
  qed
  have "passed parent kids (max 1 (length ns)) ns ns'"
    by (rule forEach_upt_invariant[OF run, where I="\<lambda>u cur. passed parent kids u ns cur"])
       (use 0 s in auto)
  then show ?thesis
  proof (cases "1 \<le> length ns")
    case True
    then show ?thesis using \<open>passed parent kids (max 1 (length ns)) ns ns'\<close> by (simp add: max_def)
  next
    case False
    then have "ns = []" by (cases ns) simp_all
    then show ?thesis using \<open>passed parent kids (max 1 (length ns)) ns ns'\<close>
      by (simp add: passed_def)
  qed
qed

lemma untilPass:
  assumes run: "forEach (untilStep parent child) [1 ..< length ns] ns = Inr ns'"
    and arr: "\<forall>j<length ns. 1 \<le> j \<and> (program (ns ! j) = parent \<or> program (ns ! j) = child) \<longrightarrow> isArr (ns ! j)"
  shows "passed parent (untilFrom parent child (map program ns)) (length ns) ns ns'"
proof (rule pass_generic[OF run])
  fix u cur cur'
  assume u: "1 \<le> u" "u < length ns" and l: "length cur = length ns"
    and p: "map program cur = map program ns" and cu: "cur ! u = ns ! u"
    and a: "\<forall>j<length ns. isArr (ns ! j) \<longrightarrow> isArr (cur ! j)"
    and r: "untilStep parent child u cur = Inr cur'"
  have pe: "program (cur ! j) = program (ns ! j)" if "j < length ns" for j
    using arg_cong[OF p, of "\<lambda>xs. xs ! j"] that l by simp
  show "if program (ns ! u) = parent
        then pushed cur u (untilFrom parent child (map program ns) u) cur' else cur' = cur"
  proof (cases "program (ns ! u) = parent")
    case False
    then show ?thesis using r cu by (simp add: untilStep_def)
  next
    case True
    then have w: "whileUntil parent child u u cur = Inr cur'" using r cu by (simp add: untilStep_def)
    have "pushed cur u (untilFrom parent child (map program cur) u) cur'"
    proof (rule whileUntil_pushed[OF w])
      show "u \<le> u" by simp
      show "u < length cur" using u l by simp
      show "isArr (cur ! u)" using arr a u True by simp
      show "\<forall>j. u < j \<and> j < length cur \<and> program (cur ! j) = child \<longrightarrow> isArr (cur ! j)"
        using arr a u l pe by auto
    qed
    then show ?thesis using True p by simp
  qed
qed

lemma childrenPass:
  assumes run: "forEach (childrenStep parent child) [1 ..< length ns] ns = Inr ns'"
    and arr: "\<forall>j<length ns. 1 \<le> j \<and> (program (ns ! j) = parent \<or> program (ns ! j) = child) \<longrightarrow> isArr (ns ! j)"
  shows "passed parent (childrenFrom child (map program ns)) (length ns) ns ns'"
proof (rule pass_generic[OF run])
  fix u cur cur'
  assume u: "1 \<le> u" "u < length ns" and l: "length cur = length ns"
    and p: "map program cur = map program ns" and cu: "cur ! u = ns ! u"
    and a: "\<forall>j<length ns. isArr (ns ! j) \<longrightarrow> isArr (cur ! j)"
    and r: "childrenStep parent child u cur = Inr cur'"
  have pe: "program (cur ! j) = program (ns ! j)" if "j < length ns" for j
    using arg_cong[OF p, of "\<lambda>xs. xs ! j"] that l by simp
  show "if program (ns ! u) = parent
        then pushed cur u (childrenFrom child (map program ns) u) cur' else cur' = cur"
  proof (cases "program (ns ! u) = parent")
    case False
    then show ?thesis using r cu by (simp add: childrenStep_def)
  next
    case True
    then have w: "whileChildren child u u cur = Inr cur'" using r cu by (simp add: childrenStep_def)
    have "pushed cur u (childrenFrom child (map program cur) u) cur'"
    proof (rule whileChildren_pushed[OF w])
      show "u \<le> u" by simp
      show "u < length cur" using u l by simp
      show "isArr (cur ! u)" using arr a u True by simp
      show "\<forall>j. u < j \<and> j < length cur \<and> program (cur ! j) = child \<longrightarrow> isArr (cur ! j)"
        using arr a u l pe by auto
    qed
    then show ?thesis using True p by simp
  qed
qed

lemma arrKeep_refl: "arrKeep ns ns"
  by (simp add: arrKeep_def)

lemma arrKeep_trans: "arrKeep a b \<Longrightarrow> arrKeep b c \<Longrightarrow> arrKeep a c"
  by (simp add: arrKeep_def)

lemma pushSel_arrKeep:
  assumes "pushSel ns i e = Inr ns'"
  shows "arrKeep ns ns'"
proof -
  from assms obtain xs where
    e: "ns' = ns[i := (ns ! i)\<lparr>selectionId := SelArray (xs @ [e])\<rparr>]"
    by (auto simp: pushSel_def split: selection.splits)
  have "isArr (ns' ! j)" if "isArr (ns ! j)" for j
  proof (cases "i < length ns")
    case True
    then show ?thesis using that e by (cases "j = i") (simp_all add: isArr_def)
  next
    case False
    then have "ns' = ns" using e by (simp add: list_update_beyond)
    then show ?thesis using that by simp
  qed
  then show ?thesis using e by (simp add: arrKeep_def)
qed

lemma whileStages_arrKeep:
  "whileStages leaf tok n k ns = Inr ns' \<Longrightarrow> arrKeep ns ns'"
proof (induction leaf tok n k ns rule: whileStages.induct)
  case (1 leaf tok nCounter kCounter ns)
  show ?case
    using "1.prems" "1.IH"
    by (subst (asm) whileStages.simps)
       (auto simp: Let_def arrKeep_refl intro: arrKeep_trans[OF pushSel_arrKeep]
             dest: pushSel_arrKeep split: if_splits sum.splits)
qed

lemma forEach_arrKeep:
  assumes "forEach f xs s = Inr s'"
    and "\<And>x t t'. f x t = Inr t' \<Longrightarrow> arrKeep (g t) (g t')"
  shows "arrKeep (g s) (g s')"
  by (rule forEach_invariant[OF assms(1), where P="\<lambda>t. arrKeep (g s) (g t)"])
     (use assms(2) arrKeep_refl arrKeep_trans in blast)+

lemma leafStep_arrKeep: "leafStep leaf sel x nj = Inr nj' \<Longrightarrow> arrKeep (fst nj) (fst nj')"
  by (auto simp: leafStep_def arrKeep_refl dest: pushSel_arrKeep split: if_splits sum.splits)

lemma stagesStep_arrKeep: "stagesStep leaf sel x nj = Inr nj' \<Longrightarrow> arrKeep (fst nj) (fst nj')"
  by (auto simp: stagesStep_def arrKeep_refl dest: whileStages_arrKeep split: if_splits sum.splits)

lemma levelName_inj:
  assumes "distinct (map cat_displayName cats)" "1 \<le> a" "a \<le> length cats" "1 \<le> b" "b \<le> length cats"
    and "levelName cats a = levelName cats b"
  shows "a = b"
proof -
  let ?k = "length cats"
  have "map cat_displayName cats ! (?k - a) = map cat_displayName cats ! (?k - b)"
    using assms(2-6) by (simp add: levelName_def)
  then have "?k - a = ?k - b"
    using nth_eq_iff_index_eq[OF assms(1), of "?k - a" "?k - b"] assms(2-5) by simp
  then show ?thesis using assms(2-5) by simp
qed

lemma levelName_mem:
  "1 \<le> a \<Longrightarrow> a \<le> length cats \<Longrightarrow> levelName cats a \<in> set (map cat_displayName cats)"
  by (simp add: levelName_def)

lemma pass0_facts:
  assumes "(if mlen = 1 \<or> fc \<le> 1 then
            forEach (leafStep leaf sel) [1 ..< length ns] (ns, 0)
          else forEach (stagesStep leaf sel) [1 ..< length ns] (ns, 0)) = Inr nj"
  shows "keeps {leaf} ns (fst nj)" "arrKeep ns (fst nj)"
proof -
  show "keeps {leaf} ns (fst nj)"
  proof (cases "mlen = 1 \<or> fc \<le> 1")
    case True
    then have f: "forEach (leafStep leaf sel) [1 ..< length ns] (ns, 0) = Inr nj"
      using assms by simp
    show ?thesis
      using forEach_keeps[where g=fst, OF f, of "{leaf}"] leafStep_keeps by fastforce
  next
    case False
    then have f: "forEach (stagesStep leaf sel) [1 ..< length ns] (ns, 0) = Inr nj"
      using assms by simp
    show ?thesis
      using forEach_keeps[where g=fst, OF f, of "{leaf}"] stagesStep_keeps by fastforce
  qed
  show "arrKeep ns (fst nj)"
  proof (cases "mlen = 1 \<or> fc \<le> 1")
    case True
    then have f: "forEach (leafStep leaf sel) [1 ..< length ns] (ns, 0) = Inr nj"
      using assms by simp
    show ?thesis
      using forEach_arrKeep[where g=fst, OF f] leafStep_arrKeep by fastforce
  next
    case False
    then have f: "forEach (stagesStep leaf sel) [1 ..< length ns] (ns, 0) = Inr nj"
      using assms by simp
    show ?thesis
      using forEach_arrKeep[where g=fst, OF f] stagesStep_arrKeep by fastforce
  qed
qed

lemma levelPass_refl: "\<not> q < length cats \<Longrightarrow> levelPass cats single q ns ns"
  by (simp add: levelPass_def)

lemma passed_levelPass:
  assumes "passed (levelName cats (q + 1)) (kidsOf cats single (map program ns) q) (length ns) ns ns'"
    and "q < length cats"
  shows "levelPass cats single q ns ns'"
proof -
  note f = passed_facts[OF assms(1)]
  show ?thesis
    unfolding levelPass_def
  proof (intro conjI allI impI)
    show "length ns' = length ns" using f(1) .
    show "map program ns' = map program ns" using f(2) .
    show "\<And>j. j < length ns \<Longrightarrow> isArr (ns ! j) \<Longrightarrow> isArr (ns' ! j)" using f(4) .
    show "\<And>j. j < length ns \<Longrightarrow> 1 \<le> j \<Longrightarrow>
         (if q < length cats \<and> program (ns ! j) = levelName cats (q + 1)
          then pushedNode (ns ! j) (kidsOf cats single (map program ns) q j) (ns' ! j)
          else ns' ! j = ns ! j)"
      using assms unfolding passed_def by simp
  qed
qed

lemma arrAll_pass:
  assumes "arrAll cats ns" "q < length cats" "1 \<le> q"
  shows "\<forall>j<length ns. 1 \<le> j \<and>
           (program (ns ! j) = levelName cats (q + 1) \<or> program (ns ! j) = levelName cats q) \<longrightarrow>
           isArr (ns ! j)"
  using assms levelName_mem[of "q + 1" cats] levelName_mem[of q cats]
  unfolding arrAll_def by auto

lemma arrAll_next:
  assumes "arrAll cats ns" "length ns' = length ns" "map program ns' = map program ns"
    "\<forall>j<length ns. isArr (ns ! j) \<longrightarrow> isArr (ns' ! j)"
  shows "arrAll cats ns'"
proof -
  have "program (ns' ! j) = program (ns ! j)" if "j < length ns" for j
    using arg_cong[OF assms(3), of "\<lambda>xs. xs ! j"] that assms(2) by simp
  then show ?thesis using assms(1,2,4) unfolding arrAll_def by auto
qed

lemma levelPass_arrAll: "levelPass cats single q ns ns' \<Longrightarrow> arrAll cats ns \<Longrightarrow> arrAll cats ns'"
  using arrAll_next unfolding levelPass_def by blast

lemma until_levelPass:
  assumes run: "forEach (untilStep P C) [1 ..< length ns] ns = Inr ns'"
    and n: "P = levelName cats (q + 1)" "C = levelName cats q"
    and arr: "arrAll cats ns" and q: "1 \<le> q" "q < length cats" and s: "\<not> (q = 1 \<and> single)"
  shows "levelPass cats single q ns ns'"
proof -
  have k: "kidsOf cats single (map program ns) q =
           untilFrom (levelName cats (q + 1)) (levelName cats q) (map program ns)"
    using s by (auto simp: kidsOf_def fun_eq_iff)
  show ?thesis
    using untilPass[OF run[unfolded n] arrAll_pass[OF arr q(2,1)]] q(2) unfolding k[symmetric]
    by (rule passed_levelPass)
qed

lemma children_levelPass:
  assumes run: "forEach (childrenStep P C) [1 ..< length ns] ns = Inr ns'"
    and n: "P = levelName cats (1 + 1)" "C = levelName cats 1"
    and arr: "arrAll cats ns" and q: "1 < length cats"
  shows "levelPass cats True 1 ns ns'"
proof -
  have k: "kidsOf cats True (map program ns) 1 =
           childrenFrom (levelName cats 1) (map program ns)"
    by (auto simp: kidsOf_def fun_eq_iff)
  have le: "(1::nat) \<le> 1" by simp
  show ?thesis
    using childrenPass[OF run[unfolded n] arrAll_pass[OF arr q le]] q unfolding k[symmetric]
    by (rule passed_levelPass)
qed

lemma catLen1_levelPass:
  assumes "(if length cats > 1 then catLen1 cats ns mlen fc else Inr ns) = Inr ns'" "arrAll cats ns"
  shows "levelPass cats (mlen = 1 \<or> fc \<le> 1) 1 ns ns'"
proof (cases "1 < length cats")
  case False
  then show ?thesis using assms(1) levelPass_refl[of 1 cats] by simp
next
  case True
  show ?thesis
  proof (cases "mlen = 1 \<or> fc \<le> 1")
    case s: True
    then have run: "forEach (childrenStep (levelName cats 2) (levelName cats 1)) [1 ..< length ns] ns = Inr ns'"
      using assms(1) True by (simp add: catLen1_def)
    have "levelPass cats True 1 ns ns'"
      by (rule children_levelPass[OF run _ _ assms(2) True]) (simp_all add: eval_nat_numeral)
    then show ?thesis using s by simp
  next
    case s: False
    then have run: "forEach (untilStep (levelName cats 2) (levelName cats 1)) [1 ..< length ns] ns = Inr ns'"
      using assms(1) True by (simp add: catLen1_def)
    show ?thesis
      by (rule until_levelPass[OF run _ _ assms(2) _ True]) (use s in \<open>simp_all add: eval_nat_numeral\<close>)
  qed
qed

lemma catLen2_levelPass:
  assumes "(if length cats > 2 then catLen2 cats ns else Inr ns) = Inr ns'" "arrAll cats ns"
  shows "levelPass cats single 2 ns ns'"
proof (cases "2 < length cats")
  case False
  then show ?thesis using assms(1) levelPass_refl[of 2 cats] by simp
next
  case True
  then have run: "forEach (untilStep (levelName cats 3) (levelName cats 2)) [1 ..< length ns] ns = Inr ns'"
    using assms(1) by (simp add: catLen2_def)
  show ?thesis
    by (rule until_levelPass[OF run _ _ assms(2) _ True]) (simp_all add: eval_nat_numeral)
qed

lemma catLen3_levelPass:
  assumes "(if length cats > 3 then catLen3 cats ns else Inr ns) = Inr ns'" "arrAll cats ns"
  shows "levelPass cats single 3 ns ns'"
proof (cases "3 < length cats")
  case False
  then show ?thesis using assms(1) levelPass_refl[of 3 cats] by simp
next
  case True
  then have run: "forEach (untilStep (levelName cats 4) (levelName cats 3)) [1 ..< length ns] ns = Inr ns'"
    using assms(1) by (simp add: catLen3_def)
  show ?thesis
    by (rule until_levelPass[OF run _ _ assms(2) _ True]) (simp_all add: eval_nat_numeral)
qed

lemma levelPass_at:
  assumes "levelPass cats single q ns ns'" "1 \<le> j" "j < length ns"
  shows "q < length cats \<Longrightarrow> program (ns ! j) = levelName cats (q + 1) \<Longrightarrow>
           pushedNode (ns ! j) (kidsOf cats single (map program ns) q j) (ns' ! j)"
    and "\<not> (q < length cats \<and> program (ns ! j) = levelName cats (q + 1)) \<Longrightarrow> ns' ! j = ns ! j"
    and "program (ns' ! j) = program (ns ! j)"
proof -
  have a: "if q < length cats \<and> program (ns ! j) = levelName cats (q + 1)
          then pushedNode (ns ! j) (kidsOf cats single (map program ns) q j) (ns' ! j)
          else ns' ! j = ns ! j"
    using assms unfolding levelPass_def by blast
  show "q < length cats \<Longrightarrow> program (ns ! j) = levelName cats (q + 1) \<Longrightarrow>
           pushedNode (ns ! j) (kidsOf cats single (map program ns) q j) (ns' ! j)"
    using a by simp
  show "\<not> (q < length cats \<and> program (ns ! j) = levelName cats (q + 1)) \<Longrightarrow> ns' ! j = ns ! j"
    using a by simp
  have "map program ns' = map program ns" "length ns' = length ns"
    using assms(1) by (simp_all add: levelPass_def)
  then show "program (ns' ! j) = program (ns ! j)"
    using assms(3) by (metis nth_map)
qed

lemma pushedNode_plain:
  "pushedNode n js n' \<Longrightarrow> selectionId n = SelArray [] \<Longrightarrow> selectionId n' = SelArray (map Ref js)"
  by (simp add: pushedNode_def)

lemma addSelection_interior:
  assumes a: "addSelection cats mlen fc d0 sel = Inr d"
    and dist: "distinct (map cat_displayName cats)"
    and plain: "\<forall>j<length (nodes d0). 1 \<le> j \<and> program (nodes d0 ! j) \<in> set (map cat_displayName cats) \<longrightarrow>
                  selectionId (nodes d0 ! j) = SelArray []"
    and i: "1 \<le> i" "i < length (nodes d0)" and q: "1 \<le> q" "q \<le> 3" "q < length cats"
    and pi: "program (nodes d0 ! i) = levelName cats (q + 1)"
  shows "selectionId (nodes d ! i) =
           SelArray (map Ref (kidsOf cats (mlen = 1 \<or> fc \<le> 1) (map program (nodes d0)) q i))"
proof -
  let ?single = "mlen = 1 \<or> fc \<le> 1"
  let ?ns0 = "nodes d0"
  let ?L = "levelName cats"
  from a obtain nj ns1 ns2 where
    s0: "(if mlen = 1 \<or> fc \<le> 1 then
            forEach (leafStep (levelName cats 1) sel) [1 ..< length (nodes d0)] (nodes d0, 0)
          else forEach (stagesStep (levelName cats 1) sel) [1 ..< length (nodes d0)] (nodes d0, 0)) = Inr nj"
    and s1: "(if length cats > 1 then catLen1 cats (fst nj) mlen fc else Inr (fst nj)) = Inr ns1"
    and s2: "(if length cats > 2 then catLen2 cats ns1 else Inr ns1) = Inr ns2"
    and s3: "(if length cats > 3 then catLen3 cats ns2 else Inr ns2) = Inr (nodes d)"
    unfolding addSelection_def Let_def
    by (auto split: sum.splits)
  let ?nsA = "fst nj"
  note p0 = pass0_facts[OF s0]
  have sA: "map stripSel ?nsA = map stripSel ?ns0" using p0(1) by (simp add: keeps_def)
  have lA: "length ?nsA = length ?ns0" using p0(2) by (simp add: arrKeep_def)
  have prA: "map program ?nsA = map program ?ns0"
    by (rule nth_equalityI) (use lA strip_program[OF sA] in simp_all)
  have arr0: "arrAll cats ?ns0" using plain by (auto simp: arrAll_def isArr_def)
  have arrA: "arrAll cats ?nsA"
    by (rule arrAll_next[OF arr0 lA prA]) (use p0(2) in \<open>simp add: arrKeep_def\<close>)
  have P1: "levelPass cats ?single 1 ?nsA ns1" using catLen1_levelPass[OF s1 arrA] .
  have arr1: "arrAll cats ns1" using levelPass_arrAll[OF P1 arrA] .
  have P2: "levelPass cats ?single 2 ns1 ns2" using catLen2_levelPass[OF s2 arr1] .
  have arr2: "arrAll cats ns2" using levelPass_arrAll[OF P2 arr1] .
  have P3: "levelPass cats ?single 3 ns2 (nodes d)" using catLen3_levelPass[OF s3 arr2] .
  have l1: "length ns1 = length ?ns0" "map program ns1 = map program ?ns0"
    using P1 lA prA by (simp_all add: levelPass_def)
  have l2: "length ns2 = length ?ns0" "map program ns2 = map program ?ns0"
    using P2 l1 by (simp_all add: levelPass_def)
  have iA: "i < length ?nsA" and i1: "i < length ns1" and i2: "i < length ns2"
    using i(2) lA l1(1) l2(1) by simp_all
  have ne: "?L (q + 1) \<noteq> ?L r" if "1 \<le> r" "r \<le> length cats" "r \<noteq> q + 1" for r
    using levelName_inj[OF dist _ _ that(1,2), of "q + 1"] q that(3) by auto
  have pl: "selectionId (?ns0 ! i) = SelArray []"
    using plain i pi levelName_mem[of "q + 1" cats] q by simp
  have eA: "?nsA ! i = ?ns0 ! i"
  proof -
    have "program (?ns0 ! i) \<notin> {?L 1}" using pi ne[of 1] q by simp
    then show ?thesis using p0(1) i(2) unfolding keeps_def by blast
  qed
  have pA: "program (?nsA ! i) = ?L (q + 1)" using eA pi by simp
  note A1 = levelPass_at[OF P1 i(1) iA]
  have p1: "program (ns1 ! i) = ?L (q + 1)" using A1(3) pA by simp
  note A2 = levelPass_at[OF P2 i(1) i1]
  have p2: "program (ns2 ! i) = ?L (q + 1)" using A2(3) p1 by simp
  note A3 = levelPass_at[OF P3 i(1) i2]
  have skip: "\<not> (r < length cats \<and> ?L (q + 1) = ?L (r + 1))" if "r \<noteq> q" for r
    using ne[of "r + 1"] that by auto
  consider "q = 1" | "q = 2" | "q = 3" using q by linarith
  then show ?thesis
  proof cases
    case 1
    have "pushedNode (?nsA ! i) (kidsOf cats ?single (map program ?nsA) 1 i) (ns1 ! i)"
      using A1(1) pA q 1 by simp
    then have "selectionId (ns1 ! i) = SelArray (map Ref (kidsOf cats ?single (map program ?ns0) 1 i))"
      using pushedNode_plain eA pl prA by simp
    moreover have "ns2 ! i = ns1 ! i" using A2(2) p1 skip[of 2] 1 by simp
    moreover have "nodes d ! i = ns2 ! i" using A3(2) p2 skip[of 3] 1 by simp
    ultimately show ?thesis using 1 by simp
  next
    case 2
    have e1: "ns1 ! i = ?nsA ! i" using A1(2) pA skip[of 1] 2 by simp
    have "pushedNode (ns1 ! i) (kidsOf cats ?single (map program ns1) 2 i) (ns2 ! i)"
      using A2(1) p1 q 2 by simp
    then have "selectionId (ns2 ! i) = SelArray (map Ref (kidsOf cats ?single (map program ?ns0) 2 i))"
      using pushedNode_plain e1 eA pl l1(2) by simp
    moreover have "nodes d ! i = ns2 ! i" using A3(2) p2 skip[of 3] 2 by simp
    ultimately show ?thesis using 2 by simp
  next
    case 3
    have e1: "ns1 ! i = ?nsA ! i" using A1(2) pA skip[of 1] 3 by simp
    have e2: "ns2 ! i = ns1 ! i" using A2(2) p1 skip[of 2] 3 by simp
    have "pushedNode (ns2 ! i) (kidsOf cats ?single (map program ns2) 3 i) (nodes d ! i)"
      using A3(1) p2 q 3 by simp
    then have "selectionId (nodes d ! i) = SelArray (map Ref (kidsOf cats ?single (map program ?ns0) 3 i))"
      using pushedNode_plain e2 e1 eA pl l2(2) by simp
    then show ?thesis using 3 by simp
  qed
qed

lemma distinct_filter_nth:
  assumes d: "distinct (map f (filter P xs))" and ab: "a < b" "b < length xs"
    and P: "P (xs ! a)" "P (xs ! b)"
  shows "f (xs ! a) \<noteq> f (xs ! b)"
proof -
  have a: "a < length xs" using ab by simp
  have x: "xs = take a xs @ xs ! a # drop (Suc a) xs" using id_take_nth_drop[OF a] .
  have "xs ! b = drop (Suc a) xs ! (b - Suc a)" using ab by simp
  moreover have "b - Suc a < length (drop (Suc a) xs)" using ab by simp
  ultimately have m: "xs ! b \<in> set (drop (Suc a) xs)" by (metis nth_mem)
  have "distinct (map f (filter P (take a xs @ xs ! a # drop (Suc a) xs)))"
    using d x by simp
  then have "f (xs ! a) \<notin> f ` set (filter P (drop (Suc a) xs))"
    using P(1) by simp
  then show ?thesis using m P(2) by auto
qed

lemma hierIds_distinct:
  assumes "distinct (map node_id (filter (isHierarchy k) ns))"
  shows "hierIds k ns"
  unfolding hierIds_def
proof (intro allI impI)
  fix a b assume a: "a < length ns" and b: "b < length ns"
    and h: "isHierarchy k (ns ! a) \<and> isHierarchy k (ns ! b) \<and> node_id (ns ! a) = node_id (ns ! b)"
  show "a = b"
  proof (rule ccontr)
    assume "a \<noteq> b"
    then consider "a < b" | "b < a" by linarith
    then show False
    proof cases
      case 1
      then show ?thesis using distinct_filter_nth[OF assms 1 b] h by simp
    next
      case 2
      then show ?thesis using distinct_filter_nth[OF assms 2 a] h by simp
    qed
  qed
qed

lemma parent_at:
  assumes n: "nestedB k 0 0 prs" and j: "j < length prs"
    and g: "group (fst (prs ! j)) = g + 1" "g + 1 \<le> k"
  obtains p where "p < j" "group (fst (prs ! p)) = g" "source (snd (prs ! j)) = node_id (fst (prs ! p))"
    "\<And>t. p < t \<Longrightarrow> t < j \<Longrightarrow> g + 1 \<le> group (fst (prs ! t))"
proof -
  have "nestedAt k 0 0 prs j" using n j by (simp add: nestedB_def)
  then have "\<exists>p<j. group (fst (prs ! p)) + 1 = group (fst (prs ! j)) \<and>
                 source (snd (prs ! j)) = node_id (fst (prs ! p)) \<and>
                 (\<forall>t. p < t \<and> t < j \<longrightarrow> group (fst (prs ! j)) \<le> group (fst (prs ! t)))"
    using g by (simp add: nestedAt_def)
  then show ?thesis using that g by auto
qed

lemma parent_is:
  assumes n: "nestedB k 0 0 prs" and ns: "ns = map fst prs" and ls: "ls = map snd prs"
    and h: "hierIds k ns"
    and i: "i < length ns" "1 \<le> group (ns ! i)" "group (ns ! i) < k"
    and j: "j < length ns" "group (ns ! j) = group (ns ! i) + 1" "source (ls ! j) = node_id (ns ! i)"
  shows "i < j" "\<And>t. i < t \<Longrightarrow> t < j \<Longrightarrow> group (ns ! i) + 1 \<le> group (ns ! t)"
proof -
  let ?g = "group (ns ! i)"
  have jl: "j < length prs" using j(1) ns by simp
  have gj: "group (fst (prs ! j)) = ?g + 1" using j(1,2) ns by simp
  have gk: "?g + 1 \<le> k" using i(3) by simp
  obtain p where p: "p < j" "group (fst (prs ! p)) = ?g"
    "source (snd (prs ! j)) = node_id (fst (prs ! p))"
    "\<And>t. p < t \<Longrightarrow> t < j \<Longrightarrow> ?g + 1 \<le> group (fst (prs ! t))"
    using parent_at[OF n jl gj gk] by blast
  have pl: "p < length ns" using p(1) j(1) by simp
  have "node_id (ns ! p) = node_id (ns ! i)"
    using p(3) j(3) j(1) pl ns ls by simp
  moreover have "isHierarchy k (ns ! p)" "isHierarchy k (ns ! i)"
    using p(2) pl i ns by (simp_all add: isHierarchy_def)
  ultimately have e: "p = i" using h pl i(1) unfolding hierIds_def by blast
  show "i < j" using p(1) e by simp
  show "\<And>t. i < t \<Longrightarrow> t < j \<Longrightarrow> ?g + 1 \<le> group (ns ! t)"
    using p(4) e j(1) ns by simp
qed

lemma childIndices_after:
  assumes n: "nestedB k 0 0 prs" and ns: "ns = map fst prs" and ls: "ls = map snd prs"
    and h: "hierIds k ns"
    and i: "i < length ns" "1 \<le> group (ns ! i)" "group (ns ! i) < k"
  shows "childIndices ns ls i =
           filter (\<lambda>j. group (ns ! j) = group (ns ! i) + 1 \<and> source (ls ! j) = node_id (ns ! i))
             [Suc i ..< length ns]"
proof -
  let ?p = "\<lambda>j. group (ns ! j) = group (ns ! i) + 1 \<and> source (ls ! j) = node_id (ns ! i)"
  have u: "[0 ..< length ns] = [0 ..< Suc i] @ [Suc i ..< length ns]"
    using i(1) by (metis Suc_leI le0 upt_add_eq_append le_add_diff_inverse)
  have "filter ?p [0 ..< Suc i] = []"
    unfolding filter_empty_conv
  proof (intro ballI notI)
    fix j assume a: "j \<in> set [0 ..< Suc i]" and b: "?p j"
    have "j < length ns" using a i(1) by auto
    then have "i < j" using parent_is(1)[OF n ns ls h i, of j] b by simp
    then show False using a by simp
  qed
  then show ?thesis unfolding childIndices_def by (subst u) simp
qed

lemma untilFrom_children:
  assumes n: "nestedB k 0 0 prs" and ns: "ns = map fst prs" and ls: "ls = map snd prs"
    and h: "hierIds k ns" and lv: "levelled cats ns" and k: "k = length cats"
    and i: "i < length ns" "1 \<le> group (ns ! i)" "group (ns ! i) < k" and i1: "1 \<le> i"
    and q: "1 \<le> q" "group (ns ! i) + q = k"
  shows "untilFrom (levelName cats (q + 1)) (levelName cats q) (map program ns) i = childIndices ns ls i"
proof -
  let ?g = "group (ns ! i)"
  let ?P = "levelName cats (q + 1)"
  let ?C = "levelName cats q"
  have qk: "q + 1 \<le> length cats" "q \<le> length cats" using q i(2) k by simp_all
  have L: "program (ns ! t) = levelName cats r \<longleftrightarrow> group (ns ! t) + r = k + 1"
    if "t < length ns" "1 \<le> t" "1 \<le> r" "r \<le> length cats" for t r
    using lv that k unfolding levelled_def by simp
  have "filter (\<lambda>j. map program ns ! j = ?C \<and> (\<forall>t. i < t \<and> t \<le> j \<longrightarrow> map program ns ! t \<noteq> ?P))
          [Suc i ..< length ns] =
        filter (\<lambda>j. group (ns ! j) = ?g + 1 \<and> source (ls ! j) = node_id (ns ! i))
          [Suc i ..< length ns]"
  proof (rule filter_cong[OF refl])
    fix j assume "j \<in> set [Suc i ..< length ns]"
    then have j: "i < j" "j < length ns" by simp_all
    have j1: "1 \<le> j" using j(1) by simp
    have pr: "map program ns ! t = program (ns ! t)" if "t \<le> j" for t
      using that j(2) by simp
    show "(map program ns ! j = ?C \<and> (\<forall>t. i < t \<and> t \<le> j \<longrightarrow> map program ns ! t \<noteq> ?P)) =
          (group (ns ! j) = ?g + 1 \<and> source (ls ! j) = node_id (ns ! i))"
    proof
      assume a: "map program ns ! j = ?C \<and> (\<forall>t. i < t \<and> t \<le> j \<longrightarrow> map program ns ! t \<noteq> ?P)"
      then have "program (ns ! j) = ?C" using pr[of j] by simp
      then have gj: "group (ns ! j) = ?g + 1" using L[OF j(2) j1 q(1) qk(2)] q(2) by simp
      have jl: "j < length prs" using j(2) ns by simp
      have gj': "group (fst (prs ! j)) = ?g + 1" using gj j(2) ns by simp
      have gk: "?g + 1 \<le> k" using i(3) by simp
      obtain p where p: "p < j" "group (fst (prs ! p)) = ?g"
        "source (snd (prs ! j)) = node_id (fst (prs ! p))"
        "\<And>t. p < t \<Longrightarrow> t < j \<Longrightarrow> ?g + 1 \<le> group (fst (prs ! t))"
        using parent_at[OF n jl gj' gk] by blast
      have pl: "p < length ns" using p(1) j(2) by simp
      have gp: "group (ns ! p) = ?g" using p(2) pl ns by simp
      have "\<not> i < p"
      proof
        assume ip: "i < p"
        then have "program (ns ! p) = ?P"
          using L[OF pl _ _ qk(1), of] gp q(2) by simp
        then show False using a ip p(1) pr[of p] by simp
      qed
      moreover have "\<not> p < i"
      proof
        assume "p < i"
        then have "?g + 1 \<le> group (fst (prs ! i))" using p(4)[of i] j(1) by simp
        then show False using i(1) ns by simp
      qed
      ultimately have "p = i" by simp
      then have "source (ls ! j) = node_id (ns ! i)"
        using p(3) j(2) i(1) ns ls by simp
      then show "group (ns ! j) = ?g + 1 \<and> source (ls ! j) = node_id (ns ! i)" using gj by simp
    next
      assume b: "group (ns ! j) = ?g + 1 \<and> source (ls ! j) = node_id (ns ! i)"
      then have c: "program (ns ! j) = ?C" using L[OF j(2) j1 q(1) qk(2)] q(2) by simp
      have btw: "?g + 1 \<le> group (ns ! t)" if "i < t" "t < j" for t
        using parent_is(2)[OF n ns ls h i j(2) _ _ that] b by simp
      have "program (ns ! t) \<noteq> ?P" if t: "i < t \<and> t \<le> j" for t
      proof
        assume "program (ns ! t) = ?P"
        moreover have "t < length ns" "1 \<le> t" using t j(2) by simp_all
        ultimately have "group (ns ! t) + (q + 1) = k + 1" using L[OF _ _ _ qk(1), of t] by simp
        then have gt: "group (ns ! t) = ?g" using q(2) by simp
        show False
        proof (cases "t = j")
          case True
          then show ?thesis using gt b by simp
        next
          case False
          then show ?thesis using btw[of t] t gt by simp
        qed
      qed
      then show "map program ns ! j = ?C \<and> (\<forall>t. i < t \<and> t \<le> j \<longrightarrow> map program ns ! t \<noteq> ?P)"
        using c pr by simp
    qed
  qed
  then show ?thesis
    unfolding childIndices_after[OF n ns ls h i] untilFrom_def by simp
qed

lemma childrenFrom_children:
  assumes n: "nestedB k 0 0 prs" and ns: "ns = map fst prs" and ls: "ls = map snd prs"
    and h: "hierIds k ns" and lv: "levelled cats ns" and k: "k = length cats"
    and i: "i < length ns" "1 \<le> group (ns ! i)" "group (ns ! i) < k" and i1: "1 \<le> i"
    and q: "group (ns ! i) + 1 = k"
    and flat: "\<forall>t<length ns. group (ns ! t) \<le> k"
  shows "childrenFrom (levelName cats 1) (map program ns) i = childIndices ns ls i"
proof -
  let ?g = "group (ns ! i)"
  let ?C = "levelName cats 1"
  have qk: "1 \<le> length cats" using q k by simp
  have L: "program (ns ! t) = ?C \<longleftrightarrow> group (ns ! t) = k"
    if "t < length ns" "1 \<le> t" for t
    using lv that k qk unfolding levelled_def by simp
  have "filter (\<lambda>j. \<forall>t. i < t \<and> t \<le> j \<longrightarrow> map program ns ! t = ?C) [Suc i ..< length ns] =
        filter (\<lambda>j. group (ns ! j) = ?g + 1 \<and> source (ls ! j) = node_id (ns ! i))
          [Suc i ..< length ns]"
  proof (rule filter_cong[OF refl])
    fix j assume "j \<in> set [Suc i ..< length ns]"
    then have j: "i < j" "j < length ns" by simp_all
    have j1: "1 \<le> j" using j(1) by simp
    have pr: "map program ns ! t = program (ns ! t)" if "t \<le> j" for t
      using that j(2) by simp
    show "(\<forall>t. i < t \<and> t \<le> j \<longrightarrow> map program ns ! t = ?C) =
          (group (ns ! j) = ?g + 1 \<and> source (ls ! j) = node_id (ns ! i))"
    proof
      assume a: "\<forall>t. i < t \<and> t \<le> j \<longrightarrow> map program ns ! t = ?C"
      then have "program (ns ! j) = ?C" using pr[of j] j(1) by simp
      then have gj: "group (ns ! j) = ?g + 1" using L[OF j(2) j1] q by simp
      have jl: "j < length prs" using j(2) ns by simp
      have gj': "group (fst (prs ! j)) = ?g + 1" using gj j(2) ns by simp
      have gk: "?g + 1 \<le> k" using i(3) by simp
      obtain p where p: "p < j" "group (fst (prs ! p)) = ?g"
        "source (snd (prs ! j)) = node_id (fst (prs ! p))"
        "\<And>t. p < t \<Longrightarrow> t < j \<Longrightarrow> ?g + 1 \<le> group (fst (prs ! t))"
        using parent_at[OF n jl gj' gk] by blast
      have pl: "p < length ns" using p(1) j(2) by simp
      have gp: "group (ns ! p) = ?g" using p(2) pl ns by simp
      have "\<not> i < p"
      proof
        assume ip: "i < p"
        then have "program (ns ! p) = ?C" using a p(1) pr[of p] by simp
        then have "group (ns ! p) = k" using L[OF pl] ip by simp
        then show False using gp q by simp
      qed
      moreover have "\<not> p < i"
      proof
        assume "p < i"
        then have "?g + 1 \<le> group (fst (prs ! i))" using p(4)[of i] j(1) by simp
        then show False using i(1) ns by simp
      qed
      ultimately have "p = i" by simp
      then have "source (ls ! j) = node_id (ns ! i)"
        using p(3) j(2) i(1) ns ls by simp
      then show "group (ns ! j) = ?g + 1 \<and> source (ls ! j) = node_id (ns ! i)" using gj by simp
    next
      assume b: "group (ns ! j) = ?g + 1 \<and> source (ls ! j) = node_id (ns ! i)"
      have btw: "?g + 1 \<le> group (ns ! t)" if "i < t" "t < j" for t
        using parent_is(2)[OF n ns ls h i j(2) _ _ that] b by simp
      have "program (ns ! t) = ?C" if t: "i < t \<and> t \<le> j" for t
      proof -
        have tl: "t < length ns" "1 \<le> t" using t j(2) by simp_all
        have "group (ns ! t) = k"
        proof (cases "t = j")
          case True
          then show ?thesis using b q by simp
        next
          case False
          then have "?g + 1 \<le> group (ns ! t)" using btw[of t] t by simp
          then show ?thesis using flat tl(1) q by (metis le_antisym)
        qed
        then show ?thesis using L[OF tl] by simp
      qed
      then show "\<forall>t. i < t \<and> t \<le> j \<longrightarrow> map program ns ! t = ?C"
        using pr by simp
    qed
  qed
  then show ?thesis
    unfolding childIndices_after[OF n ns ls h i] childrenFrom_def by simp
qed

lemma calNodesNLinks_stagesNamed:
  assumes run: "calNodesNLinks env cid level pid psum st = Inr st'"
    and lv: "level \<le> length (catDataset env)" and P: "stagesNamed env st"
  shows "stagesNamed env st'"
proof -
  let ?k = "length (catDataset env)"
  have "level \<le> ?k \<longrightarrow> stagesNamed env st \<longrightarrow> stagesNamed env st'"
  proof (rule calNodesNLinks_run_induct
      [OF run,
       where P="\<lambda>cid level pid psum st st'.
                  level \<le> length (catDataset env) \<longrightarrow> stagesNamed env st \<longrightarrow> stagesNamed env st'"
         and Q="\<lambda>cid level pid psum els st st'. stagesNamed env st \<longrightarrow> stagesNamed env st'"],
      goal_cases)
    case (1 cid level pid psum st st')
    show ?case
    proof (intro impI)
      assume l: "level \<le> ?k" and i: "stagesNamed env st"
      from l 1(1) have e: "level = ?k" by simp
      show "stagesNamed env st'"
      proof (cases "length (measureData env) > 1 \<and> measureDataLengthCount env > 1")
        case True
        then have m: "measureStages env cid ?k pid st = Inr st'" using 1(2) e by simp
        show ?thesis
        proof (rule measureStages_invariant[OF m, where P="stagesNamed env"], goal_cases)
          case 1
          show ?case using i .
        next
          case (2 col iRow iCounter t t')
          then show ?case
            using True
            by (auto simp: stagesNamed_def stageStep_def Let_def push_node_def push_link_def
                  isStage_def split: sum.splits if_splits)
        next
          case (3 t)
          then show ?case by (simp add: stagesNamed_def)
        qed
      next
        case False
        then show ?thesis using 1(2) i by auto
      qed
    qed
  next
    case (2 cid level pid psum st els st')
    then show ?case by simp
  next
    case (3 cid level pid psum st)
    then show ?case by simp
  next
    case (4 cid level pid psum element rest st col newCid a st2 st')
    show ?case
    proof (intro impI)
      assume i: "stagesNamed env st"
      have "stagesNamed env (hierPush env level pid psum element col newCid a st)"
        using i 4(1)
        by (simp add: stagesNamed_def hierPush_def push_node_def push_link_def isStage_def)
      then have "stagesNamed env st2" using 4(6) 4(1) by simp
      then show "stagesNamed env st'" using 4(8) by simp
    qed
  qed
  then show ?thesis using lv P by simp
qed

lemma build_stagesNamed:
  assumes "build h rs cats ms = Inr (env, st)"
  shows "stagesNamed env st"
proof -
  from assms obtain rootSum legend nm where
    e: "env = envOf cats ms legend"
    and r: "calNodesNLinks (envOf cats ms legend) [] 0 0 rootSum (initialState h rs cats ms rootSum nm) = Inr st"
    by (rule build_InrE)
  have "stagesNamed (envOf cats ms legend) (initialState h rs cats ms rootSum nm)"
    by (simp add: stagesNamed_def initialState_def rootNodeOf_def isStage_def)
  then show ?thesis using calNodesNLinks_stagesNamed[OF r] e by simp
qed

lemma build_levelled:
  assumes b: "build h rs cats ms = Inr (env, st)"
    and dist: "distinct (map cat_displayName cats)"
    and disj: "set (map m_displayName ms) \<inter> set (map cat_displayName cats) = {}"
  shows "levelled cats (nodes (data st))"
    and "\<forall>j<length (nodes (data st)).
           1 \<le> j \<and> program (nodes (data st) ! j) \<in> set (map cat_displayName cats) \<longrightarrow>
           selectionId (nodes (data st) ! j) = SelArray []"
proof -
  let ?k = "length cats"
  let ?ns = "nodes (data st)"
  from b obtain legend where e: "env = envOf cats ms legend" by (rule build_InrE)
  have ce: "catDataset env = cats" "measureData env = ms" using e by (simp_all add: envOf_def)
  have sn: "stagesNamed env st" using build_stagesNamed[OF b] .
  have pl: "plainState cats st" using build_plainState[OF b] .
  from build_idsOk[OF b] obtain r rest where
    r: "?ns = r # rest" "list_all (\<lambda>n. isHierarchy ?k n \<or> isStage ?k n) rest"
    by (auto simp: idsOk_def)
  have kind: "isHierarchy ?k (?ns ! t) \<or> isStage ?k (?ns ! t)" if tl: "t < length ?ns" "1 \<le> t" for t
  proof -
    from tl(2) obtain t' where t': "t = Suc t'" by (cases t) simp_all
    then have "t' < length rest" using tl(1) r(1) by simp
    then show ?thesis using r t' by (simp add: list_all_length)
  qed
  have hier: "program (?ns ! t) = cat_displayName (cats ! (group (?ns ! t) - 1)) \<and>
              selectionId (?ns ! t) = SelArray []"
    if "t < length ?ns" "isHierarchy ?k (?ns ! t)" for t
    using pl that by (simp add: plainState_def list_all_length plainNode_def)
  have stage: "program (?ns ! t) \<notin> set (map cat_displayName cats)"
    if "t < length ?ns" "isStage ?k (?ns ! t)" for t
  proof -
    have "program (?ns ! t) \<in> set (map m_displayName ms)"
      using sn that ce by (simp add: stagesNamed_def list_all_length)
    then show ?thesis using disj by blast
  qed
  show "levelled cats ?ns"
    unfolding levelled_def
  proof (intro allI impI)
    fix t r assume t: "t < length ?ns" "1 \<le> t" and rr: "1 \<le> r \<and> r \<le> ?k"
    show "program (?ns ! t) = levelName cats r \<longleftrightarrow> group (?ns ! t) + r = ?k + 1"
    proof (cases "isHierarchy ?k (?ns ! t)")
      case True
      let ?g = "group (?ns ! t)"
      have g: "1 \<le> ?g" "?g \<le> ?k" using True by (simp_all add: isHierarchy_def)
      have "program (?ns ! t) = map cat_displayName cats ! (?g - 1)"
        using hier[OF t(1) True] g by simp
      moreover have "?k - r < ?k" using rr by linarith
      then have "levelName cats r = map cat_displayName cats ! (?k - r)"
        by (simp add: levelName_def)
      moreover have "map cat_displayName cats ! (?g - 1) = map cat_displayName cats ! (?k - r) \<longleftrightarrow>
                     ?g - 1 = ?k - r"
      proof (rule nth_eq_iff_index_eq[OF dist])
        show "?g - 1 < length (map cat_displayName cats)" using g by simp
        show "?k - r < length (map cat_displayName cats)" using rr by simp linarith
      qed
      ultimately show ?thesis using g rr by auto
    next
      case False
      then have s: "isStage ?k (?ns ! t)" using kind[OF t] by simp
      have "levelName cats r \<in> set (map cat_displayName cats)"
        using levelName_mem[of r cats] rr by simp
      then have "program (?ns ! t) \<noteq> levelName cats r" using stage[OF t(1) s] by auto
      moreover have "group (?ns ! t) + r \<noteq> ?k + 1" using s rr by (simp add: isStage_def)
      ultimately show ?thesis by simp
    qed
  qed
  show "\<forall>j<length ?ns. 1 \<le> j \<and> program (?ns ! j) \<in> set (map cat_displayName cats) \<longrightarrow>
           selectionId (?ns ! j) = SelArray []"
  proof (intro allI impI)
    fix j assume j: "j < length ?ns" and a: "1 \<le> j \<and> program (?ns ! j) \<in> set (map cat_displayName cats)"
    have "isHierarchy ?k (?ns ! j)" using kind[OF j] a stage[OF j] by blast
    then show "selectionId (?ns ! j) = SelArray []" using hier[OF j] by simp
  qed
qed

lemma build_hierIds:
  assumes "build h rs cats ms = Inr (env, st)"
  shows "hierIds (length cats) (nodes (data st))"
proof -
  have "map node_id (filter (isHierarchy (length cats)) (nodes (data st))) = [1 ..< idGen st]"
    using build_idsOk[OF assms] by (simp add: idsOk_def)
  then have "distinct (map node_id (filter (isHierarchy (length cats)) (nodes (data st))))"
    by simp
  then show ?thesis by (rule hierIds_distinct)
qed

lemma converter_interior:
  assumes c: "converter h rs (View dataView) = Inr d"
    and cs: "categories dataView = Some cats" "cats \<noteq> []"
    and vs: "valueColumns dataView = Some ms" "ms \<noteq> []"
    and dist: "distinct (map cat_displayName cats)"
    and disj: "set (map m_displayName ms) \<inter> set (map cat_displayName cats) = {}"
    and i: "i < length (nodes d)"
    and g: "1 \<le> group (nodes d ! i)" "group (nodes d ! i) < length cats"
      "length cats \<le> group (nodes d ! i) + 3"
  shows "selectionId (nodes d ! i) = SelArray (map Ref (childIndices (nodes d) (links d) i))"
proof -
  let ?k = "length cats"
  from c cs vs obtain env st where
    b: "build h rs cats ms = Inr (env, st)"
    and a: "addSelection cats (length ms) (measureDataLengthCount env) (data st) (selectionTokens env) = Inr d"
    by (rule converter_InrE)
  let ?ns = "nodes (data st)"
  let ?ls = "links (data st)"
  let ?single = "length ms = 1 \<or> measureDataLengthCount env \<le> 1"
  have s: "map stripSel (nodes d) = map stripSel ?ns" and ll: "links d = ?ls"
    using addSelection_strip[OF a] by simp_all
  have l: "length (nodes d) = length ?ns" using arg_cong[OF s, of length] by simp
  have se: "stripSel (nodes d ! j) = stripSel (?ns ! j)" if "j < length ?ns" for j
    using s that l by (metis nth_map)
  have ge: "group (nodes d ! j) = group (?ns ! j)" "node_id (nodes d ! j) = node_id (?ns ! j)"
    if "j < length ?ns" for j
    using stripSel_eqD(1,2)[OF se[OF that]] by simp_all
  have i0: "i < length ?ns" using i l by simp
  let ?g = "group (?ns ! i)"
  have g0: "1 \<le> ?g" "?g < ?k" "?k \<le> ?g + 3" using g ge(1)[OF i0] by simp_all
  have ci: "childIndices (nodes d) (links d) i = childIndices ?ns ?ls i"
    unfolding childIndices_def l ll
    by (rule filter_cong[OF refl]) (use ge i0 in simp)
  from build_nested[OF b] obtain prs where
    prs: "?ns = map fst prs" "?ls = map snd prs" "nestedB ?k 0 0 prs" "prs \<noteq> []"
      "group (fst (prs ! 0)) = 0"
    by blast
  have "group (?ns ! 0) = 0" using prs(1,4,5) by simp
  then have i1: "1 \<le> i" using g0(1) by (cases i) simp_all
  note lv = build_levelled[OF b dist disj]
  have h: "hierIds ?k ?ns" using build_hierIds[OF b] .
  define q where "q = ?k - ?g"
  have q: "1 \<le> q" "q \<le> 3" "q < ?k" "?g + q = ?k" using g0 by (simp_all add: q_def)
  have pi: "program (?ns ! i) = levelName cats (q + 1)"
    using lv(1) i0 i1 q unfolding levelled_def by simp
  have sel: "selectionId (nodes d ! i) =
           SelArray (map Ref (kidsOf cats ?single (map program ?ns) q i))"
    using addSelection_interior[OF a dist lv(2) i1 i0 q(1,2,3) pi] .
  have "kidsOf cats ?single (map program ?ns) q i = childIndices ?ns ?ls i"
  proof (cases "q = 1 \<and> ?single")
    case True
    from b obtain legend where e: "env = envOf cats ms legend" by (rule build_InrE)
    have ce: "catDataset env = cats" "measureData env = ms" using e by (simp_all add: envOf_def)
    have "\<not> (length (measureData env) > 1 \<and> measureDataLengthCount env > 1)"
      using True ce by auto
    then have flat: "\<forall>t<length ?ns. group (?ns ! t) \<le> ?k"
      using build_stagesNamed[OF b] ce by (simp add: stagesNamed_def list_all_length)
    have "childrenFrom (levelName cats 1) (map program ?ns) i = childIndices ?ns ?ls i"
      by (rule childrenFrom_children[OF prs(3) prs(1) prs(2) h lv(1) refl i0 g0(1,2) i1 _ flat])
         (use q True in simp)
    then show ?thesis using True by (simp add: kidsOf_def)
  next
    case False
    have "untilFrom (levelName cats (q + 1)) (levelName cats q) (map program ?ns) i =
          childIndices ?ns ?ls i"
      by (rule untilFrom_children[OF prs(3) prs(1) prs(2) h lv(1) refl i0 g0(1,2) i1 q(1,4)])
    then show ?thesis using False by (auto simp: kidsOf_def)
  qed
  then show ?thesis using sel ci by simp
qed

section \<open>C6: a data view without a categorical or a measure column\<close>

lemma converter_lacking:
  "lacksCategory dataView \<or> lacksMeasure dataView \<Longrightarrow>
   converter h rs (View dataView) = Inr \<lparr>nodes = [], links = []\<rparr>"
  by (auto simp: converter_def lacksCategory_def lacksMeasure_def getDefaultData_def
           split: option.splits)

text \<open>
  C6: \<open>converter\<close> returns the empty graph whenever a bag is absent or empty (line 401).
  \<open>update\<close> is meant to show a message in that case, as its comments say (line 952,
  ``to display error message if category bag is empty''), but it tests the bags against
  \<open>undefined\<close> only (lines 952 and 970). For a data view whose category bag is present
  and empty no message is shown and the empty graph is drawn; for a data view whose
  \<open>categorical\<close> is \<open>undefined\<close> the read of line 952 raises before any message is set.
  When the category bag is \<open>undefined\<close> the message \<open>Please select Category Data.\<close> is
  shown with the empty graph, and when the measure bag is \<open>undefined\<close> the message
  \<open>Please select Measure Data.\<close> is shown and \<open>displayLabelUnit\<close> raises afterwards.
\<close>

theorem C6_empty_bag:
  "lacksCategory dvEmptyCategory \<and>
   converter host0 rootSettings0 (View dvEmptyCategory) = Inr \<lparr>nodes = [], links = []\<rparr> \<and>
   update host0 rootSettings0 labelSettings0 (View dvEmptyCategory) =
     \<lparr>errorMessage = None, outcome = Inr \<lparr>nodes = [], links = []\<rparr>\<rparr> \<and>
   converter host0 rootSettings0 CategoricalUndefined = Inr \<lparr>nodes = [], links = []\<rparr> \<and>
   update host0 rootSettings0 labelSettings0 CategoricalUndefined =
     \<lparr>errorMessage = None, outcome = Inl TypeError\<rparr> \<and>
   converter host0 rootSettings0 (View dvNoCategory) = Inr \<lparr>nodes = [], links = []\<rparr> \<and>
   update host0 rootSettings0 labelSettings0 (View dvNoCategory) =
     \<lparr>errorMessage = Some ''Please select Category Data.'',
      outcome = Inr \<lparr>nodes = [], links = []\<rparr>\<rparr> \<and>
   converter host0 rootSettings0 (View dvNoMeasure) = Inr \<lparr>nodes = [], links = []\<rparr> \<and>
   update host0 rootSettings0 labelSettings0 (View dvNoMeasure) =
     \<lparr>errorMessage = Some ''Please select Measure Data.'', outcome = Inl TypeError\<rparr>"
proof -
  have 1: "lacksCategory dvEmptyCategory" "lacksCategory dvNoCategory" "lacksMeasure dvNoMeasure"
    by (simp_all add: lacksCategory_def lacksMeasure_def dvEmptyCategory_def dvNoCategory_def
          dvNoMeasure_def)
  have 2: "converter host0 rootSettings0 (View dvEmptyCategory) = Inr \<lparr>nodes = [], links = []\<rparr>"
    "converter host0 rootSettings0 (View dvNoCategory) = Inr \<lparr>nodes = [], links = []\<rparr>"
    "converter host0 rootSettings0 (View dvNoMeasure) = Inr \<lparr>nodes = [], links = []\<rparr>"
    using 1 converter_lacking by blast+
  have 3: "converter host0 rootSettings0 CategoricalUndefined = Inr \<lparr>nodes = [], links = []\<rparr>"
    by (simp add: converter_def getDefaultData_def)
  have 4: "update host0 rootSettings0 labelSettings0 (View dvEmptyCategory) =
     \<lparr>errorMessage = None, outcome = Inr \<lparr>nodes = [], links = []\<rparr>\<rparr>"
    unfolding update_def using 2(1)
    by (simp add: measureMessage_def categoryMessage_def dvEmptyCategory_def numberColumn_def
          displayLabelUnit_def labelSettings0_def host0_def Let_def)
  have 5: "update host0 rootSettings0 labelSettings0 CategoricalUndefined =
     \<lparr>errorMessage = None, outcome = Inl TypeError\<rparr>"
    by (simp add: update_def)
  have 6: "update host0 rootSettings0 labelSettings0 (View dvNoCategory) =
     \<lparr>errorMessage = Some ''Please select Category Data.'',
      outcome = Inr \<lparr>nodes = [], links = []\<rparr>\<rparr>"
    unfolding update_def using 2(2)
    by (simp add: measureMessage_def categoryMessage_def dvNoCategory_def numberColumn_def
          displayLabelUnit_def labelSettings0_def errorMessageCategory_def host0_def Let_def)
  have 7: "update host0 rootSettings0 labelSettings0 (View dvNoMeasure) =
     \<lparr>errorMessage = Some ''Please select Measure Data.'', outcome = Inl TypeError\<rparr>"
    unfolding update_def using 2(3)
    by (simp add: measureMessage_def categoryMessage_def dvNoMeasure_def textColumn_def
          displayLabelUnit_def labelSettings0_def errorMessageMeasure_def host0_def Let_def)
  show ?thesis
    using 1(1) 2 3 4 5 6 7 by simp
qed

section \<open>C1: the value of a node\<close>

text \<open>
  C1, as the claim states it, fails for a value that contains the delimiter: the node's
  key is kept as the string of its components joined by \<open>***\<close> and split again by
  \<open>calAggregate\<close>. In the table below the first row has the top-level value
  \<open>a***b\<close> and the measure 10; the node of that value gets the value 0, the sum over
  the rows whose first two columns are \<open>a\<close> and \<open>b\<close>, of which there are none.
\<close>

theorem C1_counterexample:
  "converter host0 rootSettings0 (View dvDelimiter) = Inr dataDelimiter \<and>
   categories dvDelimiter = Some catsDelimiter \<and> valueColumns dvDelimiter = Some msDelimiter \<and>
   hierarchyNodes dvDelimiter dataDelimiter ! 0 = nodes dataDelimiter ! 1 \<and>
   name (nodes dataDelimiter ! 1) = Str ''a***b'' \<and> group (nodes dataDelimiter ! 1) = 1 \<and>
   description (nodes dataDelimiter ! 1) = joinKey [''a***b''] \<and>
   numberOfLeads (nodes dataDelimiter ! 1) = Num (Fin 0) \<and>
   rowSum catsDelimiter msDelimiter [''a***b''] 2 = Fin 10"
  using converter_delimiter
  by (simp add: dvDelimiter_def dataDelimiter_def hierarchyNodes_def catCount_def isHierarchy_def
        catsDelimiter_def msDelimiter_def rowSum_def rowMatches_def measureOf_def catCell_def
        measureCell_def catAt_def measureAt_def textColumn_def numberColumn_def upt_conv_Cons)

text \<open>
  C1 (amended): in every graph a build produces, the root's value is the sum of the
  first measure column over all rows (as many as the first categorical column has), and
  the value of a node of a categorical value is the sum of the first measure column over
  exactly the rows, among the first \<open>totalValues\<close> (the length of the first measure
  column), whose categorical values equal the components of the node's key at every
  level, provided the key's combined id, its components joined by \<open>***\<close>, splits back
  into the components (as it does when no component contains \<open>*\<close>, lemma
  \<open>split_joinKey\<close>) and is not \<open>none\<close>. The combined id is the node's description,
  built from the parent's description, the delimiter and the node's own value.
\<close>

theorem C1_aggregate:
  assumes "converter h rs (View dataView) = Inr d" "categories dataView = Some cats"
    "valueColumns dataView = Some ms"
  shows "(nodes d \<noteq> [] \<longrightarrow>
            numberOfLeads (hd (nodes d)) = Num (rowSum cats ms [] (length (cat_values (cats ! 0))))) \<and>
         (\<forall>n \<in> set (hierarchyNodes dataView d). \<forall>key.
            description n = joinKey key \<and> split (joinKey key) = key \<and> joinKey key \<noteq> ''none'' \<longrightarrow>
            numberOfLeads n = Num (rowSum cats ms key (length (m_values (ms ! 0))))) \<and>
         list_all (\<lambda>n. list_ex (\<lambda>p. isParentOf (nodes d) (links d) p n \<and> descriptionOf p n) (nodes d))
           (hierarchyNodes dataView d)"
proof (intro conjI)
  show "nodes d \<noteq> [] \<longrightarrow>
          numberOfLeads (hd (nodes d)) = Num (rowSum cats ms [] (length (cat_values (cats ! 0))))"
  proof
    assume "nodes d \<noteq> []"
    with assms(1) obtain cats' ms' rootSum nm r rest where
      c: "categories dataView = Some cats'" "valueColumns dataView = Some ms'"
      and a: "calAggregate cats' ms' ''none'' (length (cat_values (cats' ! 0))) = Inr rootSum"
      and n: "nodes d = r # rest" "stripSel r = stripSel (rootNodeOf h rs cats' ms' rootSum nm)"
      by (rule converter_root)
    have e: "cats' = cats" "ms' = ms" using c assms(2,3) by simp_all
    have "numberOfLeads r = Num rootSum"
      using stripSel_eqD(3)[OF n(2)] by (simp add: rootNodeOf_def)
    then show "numberOfLeads (hd (nodes d)) = Num (rowSum cats ms [] (length (cat_values (cats ! 0))))"
      using n(1) calAggregate_total[OF a] e by simp
  qed
next
  have ok: "aggregateOk (length cats) cats ms (length (m_values (ms ! 0))) (nodes d)"
    using converter_aggregateOk[OF assms] .
  have k: "catCount dataView = length cats" using assms(2) by (simp add: catCount_def)
  show "\<forall>n \<in> set (hierarchyNodes dataView d). \<forall>key.
          description n = joinKey key \<and> split (joinKey key) = key \<and> joinKey key \<noteq> ''none'' \<longrightarrow>
          numberOfLeads n = Num (rowSum cats ms key (length (m_values (ms ! 0))))"
  proof (intro ballI allI impI)
    fix n key
    assume n: "n \<in> set (hierarchyNodes dataView d)"
      and h: "description n = joinKey key \<and> split (joinKey key) = key \<and> joinKey key \<noteq> ''none''"
    have "n \<in> set (nodes d)" "isHierarchy (length cats) n"
      using n k by (simp_all add: hierarchyNodes_def)
    with ok have "case numberOfLeads n of
        Num a \<Rightarrow> calAggregate cats ms (description n) (length (m_values (ms ! 0))) = Inr a
      | _ \<Rightarrow> False"
      unfolding aggregateOk_def list_all_iff by blast
    then obtain a where a: "numberOfLeads n = Num a"
      "calAggregate cats ms (description n) (length (m_values (ms ! 0))) = Inr a"
      by (cases "numberOfLeads n") auto
    have "a = rowSum cats ms (split (description n)) (length (m_values (ms ! 0)))"
      using calAggregate_rowSum[OF a(2)] h by simp
    then show "numberOfLeads n = Num (rowSum cats ms key (length (m_values (ms ! 0))))"
      using a(1) h by simp
  qed
next
  show "list_all (\<lambda>n. list_ex (\<lambda>p. isParentOf (nodes d) (links d) p n \<and> descriptionOf p n) (nodes d))
          (hierarchyNodes dataView d)"
    using converter_parents[OF assms(1)]
    unfolding parentsOk_def childOf_def hierarchyNodes_def list_all_iff list_ex_iff
    by fastforce
qed

text \<open>
  Scenario B of the specification: the root has the value 30, and East under US the
  value 10.
\<close>

theorem C1_aggregate_witness:
  "converter host0 rootSettings0 (View dvScenarioB) = Inr dataScenarioB \<and>
   nodes dataScenarioB \<noteq> [] \<and>
   numberOfLeads (hd (nodes dataScenarioB)) = Num (rowSum catsScenarioB msScenarioB [] 2) \<and>
   rowSum catsScenarioB msScenarioB [] 2 = Fin 30 \<and>
   nodes dataScenarioB ! 2 \<in> set (hierarchyNodes dvScenarioB dataScenarioB) \<and>
   description (nodes dataScenarioB ! 2) = joinKey [''US'', ''East''] \<and>
   split (joinKey [''US'', ''East'']) = [''US'', ''East''] \<and>
   joinKey [''US'', ''East''] \<noteq> ''none'' \<and>
   numberOfLeads (nodes dataScenarioB ! 2) = Num (rowSum catsScenarioB msScenarioB [''US'', ''East''] 2) \<and>
   rowSum catsScenarioB msScenarioB [''US'', ''East''] 2 = Fin 10"
proof -
  have c: "converter host0 rootSettings0 (View dvScenarioB) = Inr dataScenarioB"
    by (rule converter_scenarioB)
  have cs: "categories dvScenarioB = Some catsScenarioB" "valueColumns dvScenarioB = Some msScenarioB"
    by (simp_all add: dvScenarioB_def)
  have ne: "nodes dataScenarioB \<noteq> []" by (simp add: dataScenarioB_def)
  have m: "nodes dataScenarioB ! 2 \<in> set (hierarchyNodes dvScenarioB dataScenarioB)"
    by (simp add: hierarchyNodes_def catCount_def dvScenarioB_def catsScenarioB_def
          dataScenarioB_def isHierarchy_def)
  have k: "description (nodes dataScenarioB ! 2) = joinKey [''US'', ''East'']"
    "split (joinKey [''US'', ''East'']) = [''US'', ''East'']"
    "joinKey [''US'', ''East''] \<noteq> ''none''"
    by (simp_all add: dataScenarioB_def split_def)
  have l: "length (cat_values (catsScenarioB ! 0)) = 2" "length (m_values (msScenarioB ! 0)) = 2"
    by (simp_all add: catsScenarioB_def msScenarioB_def textColumn_def numberColumn_def)
  have s: "rowSum catsScenarioB msScenarioB [] 2 = Fin 30"
    "rowSum catsScenarioB msScenarioB [''US'', ''East''] 2 = Fin 10"
    by (simp_all add: catsScenarioB_def msScenarioB_def rowSum_def rowMatches_def measureOf_def
          catCell_def measureCell_def catAt_def measureAt_def textColumn_def numberColumn_def
          upt_conv_Cons)
  have t: "numberOfLeads (hd (nodes dataScenarioB)) = Num (rowSum catsScenarioB msScenarioB [] 2)"
    "numberOfLeads (nodes dataScenarioB ! 2) =
       Num (rowSum catsScenarioB msScenarioB [''US'', ''East''] 2)"
    using C1_aggregate[OF c cs] ne m k l by auto
  show ?thesis
    using c ne m k s t by simp
qed

section \<open>C2: the percentage of a node\<close>

text \<open>
  C2: in every graph a build produces the root node's percentage is exactly 1, and every
  node of a categorical value has a parent (a node one level up with a link to it) such
  that the node's percentage is the quotient of its own value by the parent's value; for
  finite values and a parent value other than 0 this is the exact quotient of the two
  numbers (numbers are exact rationals here, so no epsilon is needed).
\<close>

theorem C2_percentage_law:
  assumes "converter h rs (View dataView) = Inr d"
  shows "(nodes d \<noteq> [] \<longrightarrow> percentage (hd (nodes d)) = Fin 1) \<and>
         list_all (\<lambda>n. list_ex (\<lambda>p. isParentOf (nodes d) (links d) p n \<and>
                                   percentageOf p n \<and> finiteQuotient p n) (nodes d))
           (hierarchyNodes dataView d)"
proof
  show "nodes d \<noteq> [] \<longrightarrow> percentage (hd (nodes d)) = Fin 1"
  proof
    assume "nodes d \<noteq> []"
    with assms obtain cats ms rootSum nm r rest where
      "nodes d = r # rest" "stripSel r = stripSel (rootNodeOf h rs cats ms rootSum nm)"
      by (rule converter_root)
    then show "percentage (hd (nodes d)) = Fin 1"
      using stripSel_eqD(4)[of r "rootNodeOf h rs cats ms rootSum nm"]
      by (simp add: rootNodeOf_def)
  qed
next
  show "list_all (\<lambda>n. list_ex (\<lambda>p. isParentOf (nodes d) (links d) p n \<and>
                                   percentageOf p n \<and> finiteQuotient p n) (nodes d))
           (hierarchyNodes dataView d)"
    using converter_parents[OF assms] percentageOf_finite
    unfolding parentsOk_def childOf_def hierarchyNodes_def list_all_iff list_ex_iff
    by fastforce
qed

text \<open>
  On scenario A of the specification the root has percentage 1 and the nodes US and EU
  have the percentages 30/35 and 5/35 of the root's 35.
\<close>

theorem C2_percentage_law_witness:
  "converter host0 rootSettings0 (View dvScenarioA) = Inr dataScenarioA \<and>
   percentage (hd (nodes dataScenarioA)) = Fin 1 \<and>
   map percentage (hierarchyNodes dvScenarioA dataScenarioA) = [Fin (30 / 35), Fin (5 / 35)] \<and>
   list_all (\<lambda>n. list_ex (\<lambda>p. isParentOf (nodes dataScenarioA) (links dataScenarioA) p n \<and>
                             percentageOf p n \<and> finiteQuotient p n) (nodes dataScenarioA))
     (hierarchyNodes dvScenarioA dataScenarioA)"
proof -
  have c: "converter host0 rootSettings0 (View dvScenarioA) = Inr dataScenarioA"
    by (rule converter_scenarioA)
  have n: "nodes dataScenarioA \<noteq> []" by (simp add: dataScenarioA_def)
  have p: "map percentage (hierarchyNodes dvScenarioA dataScenarioA) = [Fin (30 / 35), Fin (5 / 35)]"
    by (simp add: hierarchyNodes_def catCount_def dvScenarioA_def dataScenarioA_def isHierarchy_def)
  have l: "percentage (hd (nodes dataScenarioA)) = Fin 1 \<and>
     list_all (\<lambda>n. list_ex (\<lambda>p. isParentOf (nodes dataScenarioA) (links dataScenarioA) p n \<and>
                             percentageOf p n \<and> finiteQuotient p n) (nodes dataScenarioA))
       (hierarchyNodes dvScenarioA dataScenarioA)"
    using C2_percentage_law[OF c] n by simp
  show ?thesis
    using c p l by simp
qed

section \<open>C3: a parent whose value is 0\<close>

text \<open>
  C3, as the claim states it, fails: line 382 divides by \<open>parentSum\<close> without a guard.
  For a single row whose measure is 0 the root has the value 0, and the node of the
  row's category, created under it, has the percentage 0 / 0, which is NaN and not 0.
\<close>

theorem C3_counterexample:
  "converter host0 rootSettings0 (View dvZero) = Inr dataZero \<and>
   isParentOf (nodes dataZero) (links dataZero) (nodes dataZero ! 0) (nodes dataZero ! 1) \<and>
   numberOfLeads (nodes dataZero ! 0) = Num (Fin 0) \<and>
   percentage (nodes dataZero ! 1) = NaN \<and> percentage (nodes dataZero ! 1) \<noteq> Fin 0"
  using converter_zero by (simp add: dataZero_def isParentOf_def)

text \<open>
  C3 (amended): every node of a categorical value has a parent such that its percentage
  is the unguarded quotient of its value by the parent's; when the parent's value is 0
  the percentage is therefore NaN if the node's own value is 0 or NaN, and plus or minus
  Infinity according to the sign of the node's value otherwise.
\<close>

theorem C3_zero_parent:
  assumes "converter h rs (View dataView) = Inr d"
  shows "list_all (\<lambda>n. list_ex (\<lambda>p. isParentOf (nodes d) (links d) p n \<and>
                                   percentageOf p n \<and> zeroParentQuotient p n) (nodes d))
           (hierarchyNodes dataView d)"
  using converter_parents[OF assms] percentageOf_zero
  unfolding parentsOk_def childOf_def hierarchyNodes_def list_all_iff list_ex_iff
  by fastforce

theorem C3_zero_parent_witness:
  "converter host0 rootSettings0 (View dvZero) = Inr dataZero \<and>
   hierarchyNodes dvZero dataZero = [nodes dataZero ! 1] \<and>
   list_all (\<lambda>n. list_ex (\<lambda>p. isParentOf (nodes dataZero) (links dataZero) p n \<and>
                             percentageOf p n \<and> zeroParentQuotient p n) (nodes dataZero))
     (hierarchyNodes dvZero dataZero)"
proof -
  have h: "hierarchyNodes dvZero dataZero = [nodes dataZero ! 1]"
    by (simp add: hierarchyNodes_def catCount_def dvZero_def dataZero_def isHierarchy_def)
  have l: "list_all (\<lambda>n. list_ex (\<lambda>p. isParentOf (nodes dataZero) (links dataZero) p n \<and>
                             percentageOf p n \<and> zeroParentQuotient p n) (nodes dataZero))
     (hierarchyNodes dvZero dataZero)"
    using C3_zero_parent[OF converter_zero] .
  show ?thesis
    using converter_zero h l by simp
qed

section \<open>C4: the selection ids\<close>

text \<open>
  C4, as the claim states it, fails. The selection pass is written out by hand for the
  four deepest category levels (\<open>addSelection\<close>, \<open>catLen1\<close>, \<open>catLen2\<close>, \<open>catLen3\<close>): in a
  table with five categorical columns and one row, the node of the first level keeps an
  empty selection array, while its only child stands for the token of row 0. And the
  nodes of the deepest level get the row tokens by position, the \<open>j\<close>-th node the token
  of row \<open>j\<close> (line 521), not by their key: in Scenario A, the regions US, US, EU, the
  node of EU gets the token of row 1, a row of US, and the only row of EU is row 2.
\<close>

theorem C4_counterexample:
  "converter host0 rootSettings0 (View dvDeep) = Inr dataDeep \<and>
   group (nodes dataDeep ! 1) = 1 \<and>
   isParentOf (nodes dataDeep) (links dataDeep) (nodes dataDeep ! 1) (nodes dataDeep ! 2) \<and>
   selectionTokensOf dataDeep (nodes dataDeep ! 1) = [] \<and>
   selectionTokensOf dataDeep (nodes dataDeep ! 2) = [0] \<and>
   converter host0 rootSettings0 (View dvScenarioA) = Inr dataScenarioA \<and>
   name (nodes dataScenarioA ! 2) = Str ''EU'' \<and>
   selectionTokensOf dataScenarioA (nodes dataScenarioA ! 2) = [1] \<and>
   filter (rowMatches (the (categories dvScenarioA)) [''EU'']) [0 ..< 3] = [2]"
proof -
  have 1: "group (nodes dataDeep ! 1) = 1"
    "isParentOf (nodes dataDeep) (links dataDeep) (nodes dataDeep ! 1) (nodes dataDeep ! 2)"
    by (simp_all add: dataDeep_def isParentOf_def)
  have 2: "selectionTokensOf dataDeep (nodes dataDeep ! 1) = []"
    by (simp add: selectionTokensOf_def dataDeep_def)
  have 3: "selectionTokensOf dataDeep (nodes dataDeep ! 2) = [0]"
    by (simp add: selectionTokensOf_def dataDeep_def)
  have 4: "name (nodes dataScenarioA ! 2) = Str ''EU''"
    "selectionTokensOf dataScenarioA (nodes dataScenarioA ! 2) = [1]"
    by (simp_all add: selectionTokensOf_def dataScenarioA_def)
  have 5: "filter (rowMatches (the (categories dvScenarioA)) [''EU'']) [0 ..< 3] = [2]"
    by (simp add: dvScenarioA_def rowMatches_def eval_rules)
  show ?thesis using converter_deep converter_scenarioA 1 2 3 4 5 by simp
qed

text \<open>
  C4 (amended): after the selection pass the root's selection id is the full list of
  row tokens; and the pass reaches the four deepest category levels only. When the
  display names of the categorical columns are distinct, every node of a categorical
  value that lies four or more levels above the deepest level keeps the empty selection
  array it was created with, whatever its children hold. When moreover no measure has
  the display name of a categorical column, the selection array of every node of one of
  the three levels above the deepest one holds the selection arrays of its direct
  children, each once and in the order of the nodes, and nothing else: \<open>Ref j\<close> is the
  array of node \<open>j\<close>, pushed by reference (lines 573, 590, 618 and 645).
\<close>

theorem C4_four_levels:
  assumes "converter h rs (View dataView) = Inr d"
    and "categories dataView = Some cats" "cats \<noteq> []"
    and "valueColumns dataView = Some ms" "ms \<noteq> []"
    and "distinct (map cat_displayName cats)"
  shows "selectionId (hd (nodes d)) = SelArray (rowTokens cats ms) \<and>
         (\<forall>n \<in> set (hierarchyNodes dataView d).
            group n + 4 \<le> length cats \<longrightarrow> selectionId n = SelArray []) \<and>
         (set (map m_displayName ms) \<inter> set (map cat_displayName cats) = {} \<longrightarrow>
            (\<forall>i < length (nodes d).
               1 \<le> group (nodes d ! i) \<and> group (nodes d ! i) < length cats \<and>
               length cats \<le> group (nodes d ! i) + 3 \<longrightarrow>
               selectionId (nodes d ! i) =
                 SelArray (map Ref (childIndices (nodes d) (links d) i))))"
proof -
  have 1: "selectionId (hd (nodes d)) = SelArray (rowTokens cats ms)"
    using converter_selection(1)[OF assms(1-5)] .
  have 2: "\<forall>n \<in> set (hierarchyNodes dataView d).
            group n + 4 \<le> length cats \<longrightarrow> selectionId n = SelArray []"
    using converter_selection(2)[OF assms(1-5)] assms(6) by blast
  have 3: "selectionId (nodes d ! i) = SelArray (map Ref (childIndices (nodes d) (links d) i))"
    if "set (map m_displayName ms) \<inter> set (map cat_displayName cats) = {}"
      "i < length (nodes d)"
      "1 \<le> group (nodes d ! i) \<and> group (nodes d ! i) < length cats \<and>
       length cats \<le> group (nodes d ! i) + 3" for i
    using converter_interior[OF assms(1-6) that(1,2)] that(3) by simp
  show ?thesis using 1 2 3 by blast
qed

theorem C4_four_levels_witness:
  "converter host0 rootSettings0 (View dvDeep) = Inr dataDeep \<and>
   distinct (map cat_displayName (the (categories dvDeep))) \<and>
   set (map m_displayName (the (valueColumns dvDeep))) \<inter>
     set (map cat_displayName (the (categories dvDeep))) = {} \<and>
   rowTokens (the (categories dvDeep)) (the (valueColumns dvDeep)) = [Tok 0] \<and>
   selectionId (hd (nodes dataDeep)) = SelArray [Tok 0] \<and>
   nodes dataDeep ! 1 \<in> set (hierarchyNodes dvDeep dataDeep) \<and>
   group (nodes dataDeep ! 1) + 4 \<le> length (the (categories dvDeep)) \<and>
   selectionId (nodes dataDeep ! 1) = SelArray [] \<and>
   group (nodes dataDeep ! 2) = 2 \<and>
   childIndices (nodes dataDeep) (links dataDeep) 2 = [3] \<and>
   selectionId (nodes dataDeep ! 2) = SelArray [Ref 3]"
proof -
  let ?cats = "[textColumn ''L1'' [''a''], textColumn ''L2'' [''b''],
                textColumn ''L3'' [''c''], textColumn ''L4'' [''d''], textColumn ''L5'' [''e'']]"
  let ?ms = "[numberColumn ''Sales'' False [7]]"
  have a: "categories dvDeep = Some ?cats" "valueColumns dvDeep = Some ?ms"
    by (simp_all add: dvDeep_def)
  have dist: "distinct (map cat_displayName ?cats)" by (simp add: textColumn_def)
  have disj: "set (map m_displayName ?ms) \<inter> set (map cat_displayName ?cats) = {}"
    by (simp add: textColumn_def numberColumn_def)
  have t: "rowTokens ?cats ?ms = [Tok 0]"
    by (simp add: rowTokens_def textColumn_def numberColumn_def)
  have x: "nodes dataDeep ! 1 \<in> set (hierarchyNodes dvDeep dataDeep)"
    by (simp add: hierarchyNodes_def catCount_def dvDeep_def dataDeep_def isHierarchy_def)
  have g: "group (nodes dataDeep ! 1) + 4 \<le> length ?cats" by (simp add: dataDeep_def)
  have g2: "group (nodes dataDeep ! 2) = 2" "2 < length (nodes dataDeep)"
    by (simp_all add: dataDeep_def)
  have k: "childIndices (nodes dataDeep) (links dataDeep) 2 = [3]"
    by (simp add: childIndices_def dataDeep_def eval_rules)
  note th = C4_four_levels[OF converter_deep a(1) _ a(2) _ dist]
  have 1: "selectionId (hd (nodes dataDeep)) = SelArray [Tok 0]"
    using th t by simp
  have 2: "selectionId (nodes dataDeep ! 1) = SelArray []"
    using th x g by simp
  have 3: "selectionId (nodes dataDeep ! 2) =
             SelArray (map Ref (childIndices (nodes dataDeep) (links dataDeep) 2))"
    using th disj g2 by simp
  show ?thesis using converter_deep a dist disj t x g g2(1) k 1 2 3 by simp
qed

section \<open>C5: the chain of measure stages\<close>

text \<open>
  C5: the code tells the first stage by the index of the measure column
  (\<open>iCounter === 0\<close>, lines 315 and 323) and divides by the value of the column before
  (line 317), whatever its role. For the funnel of the specification, one categorical
  column and the two flow-stage measures 100 and 40 on a single row, the first stage has
  the value 100 and the percentage 1 and comes from the node of the category, the second
  has the value 40 and the percentage 2 / 5 and comes from the first. When the column of
  the root role comes first (Total = 7, root role; Visits = 100 and Orders = 40, flow
  stages), the first stage node, Visits, has the percentage 100 / 7 and not 1, and the
  only link that enters it comes from the id 10000000, which no node has, and not from
  the node of the category, whose id is 1.
\<close>

theorem C5_root_first:
  "converter host0 rootSettings0 (View dvFunnel) = Inr dataFunnel \<and>
   map (\<lambda>n. (name n, numberOfLeads n, percentage n)) (drop 2 (nodes dataFunnel)) =
     [(Str ''A'', Num (Fin 100), Fin 1), (Str ''B'', Num (Fin 40), Fin (2 / 5))] \<and>
   map (\<lambda>l. (source l, target l)) (drop 2 (links dataFunnel)) =
     [(1, 10000001), (10000001, 10000002)] \<and>
   converter host0 rootSettings0 (View dvRootFirst) = Inr dataRootFirst \<and>
   map node_id (nodes dataRootFirst) = [0, 1, 10000001, 10000002] \<and>
   name (nodes dataRootFirst ! 2) = Str ''Visits'' \<and>
   percentage (nodes dataRootFirst ! 2) = Fin (100 / 7) \<and>
   percentage (nodes dataRootFirst ! 2) \<noteq> Fin 1 \<and>
   map source (filter (\<lambda>l. target l = node_id (nodes dataRootFirst ! 2)) (links dataRootFirst)) =
     [10000000]"
proof -
  have 1: "map (\<lambda>n. (name n, numberOfLeads n, percentage n)) (drop 2 (nodes dataFunnel)) =
     [(Str ''A'', Num (Fin 100), Fin 1), (Str ''B'', Num (Fin 40), Fin (2 / 5))]"
    by (simp add: dataFunnel_def)
  have 2: "map (\<lambda>l. (source l, target l)) (drop 2 (links dataFunnel)) =
     [(1, 10000001), (10000001, 10000002)]"
    by (simp add: dataFunnel_def)
  have 3: "map node_id (nodes dataRootFirst) = [0, 1, 10000001, 10000002]"
    by (simp add: dataRootFirst_def)
  have 4: "name (nodes dataRootFirst ! 2) = Str ''Visits''"
    "percentage (nodes dataRootFirst ! 2) = Fin (100 / 7)"
    "percentage (nodes dataRootFirst ! 2) \<noteq> Fin 1"
    by (simp_all add: dataRootFirst_def)
  have 5: "map source (filter (\<lambda>l. target l = node_id (nodes dataRootFirst ! 2)) (links dataRootFirst)) =
     [10000000]"
    by (simp add: dataRootFirst_def)
  show ?thesis
    using converter_funnel converter_rootFirst 1 2 3 4 5 by simp
qed

section \<open>C7: measure values that are not numbers\<close>




section \<open>C8: a null categorical value\<close>

text \<open>
  C8, as the claim states it, fails: for Scenario D, a null categorical value at row 2
  of 3, \<open>update\<close> shows the message \<open>Category value is null.\<close> and goes on to call
  \<open>converter\<close>, where \<open>toString\<close> on the null raises (line 453); no graph is built, so there
  is neither a total nor a node for the null group.
\<close>

theorem C8_counterexample:
  "converter host0 rootSettings0 (View dvNullCategory) = Inl TypeError \<and>
   outcome (update host0 rootSettings0 labelSettings0 (View dvNullCategory)) = Inl TypeError \<and>
   errorMessage (update host0 rootSettings0 labelSettings0 (View dvNullCategory)) = Some ''Category value is null.''"
  using converter_nullCategory
  by (simp add: update_def measureMessage_def categoryMessage_def dvNullCategory_def
        numberColumn_def errorMessageCategoryNull_def)

text \<open>
  C8 (amended): for a table with a null value in a categorical column the host shows
  the message \<open>Category value is null.\<close> (or \<open>Measure value is null.\<close> when a measure
  value is null as well, since that message is set later); and when the null is in the
  first categorical column the build does not complete: \<open>converter\<close> raises a TypeError
  and \<open>update\<close> ends in \<open>renderingFailed\<close> without a graph.
\<close>

theorem C8_null_category:
  assumes "categories dataView = Some cats" "cats \<noteq> []"
    and "valueColumns dataView = Some ms" "ms \<noteq> []"
    and "c \<in> set cats" "CNull \<in> set (cat_values c)"
  shows "errorMessage (update h rs ls (View dataView)) =
           (if list_ex (\<lambda>m. list_ex (\<lambda>v. v = MNull) (m_values m)) ms
            then Some errorMessageMeasureNull else Some errorMessageCategoryNull) \<and>
         (c = cats ! 0 \<longrightarrow>
            converter h rs (View dataView) = Inl TypeError \<and>
            outcome (update h rs ls (View dataView)) = Inl TypeError)"
proof (intro conjI impI)
  show "errorMessage (update h rs ls (View dataView)) =
           (if list_ex (\<lambda>m. list_ex (\<lambda>v. v = MNull) (m_values m)) ms
            then Some errorMessageMeasureNull else Some errorMessageCategoryNull)"
    using categoryMessage_null[OF assms(1,5,6), of None] assms(3)
    by (simp add: update_def measureMessage_def)
next
  assume "c = cats ! 0"
  then have "build h rs cats ms = Inl TypeError"
    using build_legend_fails assms(6) by simp
  then show "converter h rs (View dataView) = Inl TypeError"
    using converter_build_fails[OF assms(1-4)] by simp
  then show "outcome (update h rs ls (View dataView)) = Inl TypeError" by (simp add: update_def)
qed

theorem C8_null_category_witness:
  "categories dvNullCategory =
     Some [\<lparr>cat_displayName = ''Region'', cat_values = [CStr ''a'', CNull, CStr ''b'']\<rparr>] \<and>
   CNull \<in> set (cat_values (the (categories dvNullCategory) ! 0)) \<and>
   errorMessage (update host0 rootSettings0 labelSettings0 (View dvNullCategory)) = Some errorMessageCategoryNull \<and>
   converter host0 rootSettings0 (View dvNullCategory) = Inl TypeError \<and>
   outcome (update host0 rootSettings0 labelSettings0 (View dvNullCategory)) = Inl TypeError"
proof -
  let ?c = "\<lparr>cat_displayName = ''Region'', cat_values = [CStr ''a'', CNull, CStr ''b'']\<rparr>"
  let ?ms = "[numberColumn ''Sales'' False [1, 2, 3]]"
  have a: "categories dvNullCategory = Some [?c]" "valueColumns dvNullCategory = Some ?ms"
    by (simp_all add: dvNullCategory_def)
  have b: "?c \<in> set [?c]" "CNull \<in> set (cat_values ?c)" by simp_all
  have n: "\<not> list_ex (\<lambda>m. list_ex (\<lambda>v. v = MNull) (m_values m)) ?ms"
    by (simp add: numberColumn_def)
  have "errorMessage (update host0 rootSettings0 labelSettings0 (View dvNullCategory)) = Some errorMessageCategoryNull \<and>
        converter host0 rootSettings0 (View dvNullCategory) = Inl TypeError \<and>
        outcome (update host0 rootSettings0 labelSettings0 (View dvNullCategory)) = Inl TypeError"
    using C8_null_category[OF a(1) _ a(2) _ b, of host0 rootSettings0 labelSettings0] n by simp
  then show ?thesis using a b by simp
qed

section \<open>C9: the order of the children\<close>

text \<open>
  C9: the filter of line 232 keeps exactly the first occurrence of each value, in the
  order of the list, and the children of a node are pushed in that order (line 355),
  never sorted: in the table Region = US, EU, US, US and Area = b, x, a, b the root's
  children are US, EU and the children of the region US are b, a. But the call for a
  parent tells the root by an empty combined id (line 342), while \<open>calAggregate\<close> and
  the stage branch take the empty text for a key like any other. When a value of the first
  categorical column is the empty text, the combined id of its node is empty (line 368),
  so the call for that node lists the distinct values of the whole first column (line
  354) instead of those of the next column in the matching rows. In the table
  Region = '', b and Area = x, y the node of the region '' gets the children '' and b,
  while the only row that matches its key has the area x.
\<close>

theorem C9_blank_value:
  "filter_js getDistinctElements xs = firstSeen xs \<and>
   converter host0 rootSettings0 (View dvOrder) = Inr dataOrder \<and>
   map name (filter (isParentOf (nodes dataOrder) (links dataOrder) (nodes dataOrder ! 0))
              (nodes dataOrder)) = [Str ''US'', Str ''EU''] \<and>
   map name (filter (isParentOf (nodes dataOrder) (links dataOrder) (nodes dataOrder ! 1))
              (nodes dataOrder)) = [Str ''b'', Str ''a''] \<and>
   map ofCat (firstSeen (map (catAt (catsOrder ! 1))
                           (filter (rowMatches catsOrder [''US'']) [0 ..< 4]))) =
     [Str ''b'', Str ''a''] \<and>
   converter host0 rootSettings0 (View dvBlank) = Inr dataBlank \<and>
   name (nodes dataBlank ! 1) = Str [] \<and> group (nodes dataBlank ! 1) = 1 \<and>
   map name (filter (isParentOf (nodes dataBlank) (links dataBlank) (nodes dataBlank ! 1))
              (nodes dataBlank)) = [Str [], Str ''b''] \<and>
   map ofCat (firstSeen (map (catAt (catsBlank ! 1))
                           (filter (rowMatches catsBlank [[]]) [0 ..< 2]))) = [Str ''x'']"
proof -
  have o0: "map name (filter (isParentOf (nodes dataOrder) (links dataOrder) (nodes dataOrder ! 0))
              (nodes dataOrder)) = [Str ''US'', Str ''EU'']"
    by (simp add: dataOrder_def isParentOf_def)
  have o1: "map name (filter (isParentOf (nodes dataOrder) (links dataOrder) (nodes dataOrder ! 1))
              (nodes dataOrder)) = [Str ''b'', Str ''a'']"
    by (simp add: dataOrder_def isParentOf_def)
  have o2: "filter (rowMatches catsOrder [''US'']) [0 ..< 4] = [0, 2, 3]"
    by (simp add: rowMatches_def catsOrder_def eval_rules)
  have o3: "map ofCat (firstSeen (map (catAt (catsOrder ! 1)) [0, 2, 3])) = [Str ''b'', Str ''a'']"
    by (simp add: firstSeen_def catsOrder_def eval_rules)
  have 1: "map name (filter (isParentOf (nodes dataBlank) (links dataBlank) (nodes dataBlank ! 1))
              (nodes dataBlank)) = [Str [], Str ''b'']"
    by (simp add: dataBlank_def isParentOf_def)
  have 2: "filter (rowMatches catsBlank [[]]) [0 ..< 2] = [0]"
    by (simp add: rowMatches_def catsBlank_def eval_rules)
  have 3: "map ofCat (firstSeen (map (catAt (catsBlank ! 1)) [0])) = [Str ''x'']"
    by (simp add: firstSeen_def catsBlank_def eval_rules)
  have 4: "name (nodes dataBlank ! 1) = Str [] \<and> group (nodes dataBlank ! 1) = 1"
    by (simp add: dataBlank_def)
  show ?thesis
    using getDistinctElements_firstSeen[of xs] converter_order converter_blank
      o0 o1 o2 o3 1 2 3 4 by simp
qed

section \<open>C10: node ids\<close>

text \<open>
  C10: in every graph a build produces, the root has id 0, every other node is the node
  of a categorical value or a measure-stage node, the nodes of categorical values have
  the consecutive ids 1, 2, ... in the order of their creation, the measure-stage nodes
  have the consecutive ids 10000001, 10000002, ..., and as long as fewer than 10000000
  nodes of categorical values are created the ids are pairwise distinct.
\<close>

theorem C10_node_ids:
  assumes "converter h rs (View dataView) = Inr d" and "nodes d \<noteq> []"
  shows "node_id (hd (nodes d)) = 0 \<and>
         list_all (\<lambda>n. isHierarchy (catCount dataView) n \<or> isStage (catCount dataView) n)
           (tl (nodes d)) \<and>
         map node_id (hierarchyNodes dataView d) = [1 ..< 1 + length (hierarchyNodes dataView d)] \<and>
         map node_id (stageNodes dataView d) =
           [maxMeasure + 1 ..< maxMeasure + 1 + length (stageNodes dataView d)] \<and>
         (length (hierarchyNodes dataView d) < maxMeasure \<longrightarrow> distinct (map node_id (nodes d)))"
proof -
  from assms obtain g m r rest where
    A: "map node_id (hierarchyNodes dataView d) = [1 ..< g]" and g: "1 \<le> g"
    and B: "map node_id (stageNodes dataView d) = [Suc maxMeasure ..< Suc m]" and m: "maxMeasure \<le> m"
    and D: "nodes d = r # rest" "group r = 0" "node_id r = 0"
      "list_all (\<lambda>n. isHierarchy (catCount dataView) n \<or> isStage (catCount dataView) n) rest"
    by (rule converter_ids)
  have lh: "length (hierarchyNodes dataView d) = g - 1"
    using arg_cong[OF A, of length] by simp
  have "length (map node_id (stageNodes dataView d)) = length [Suc maxMeasure ..< Suc m]"
    using B by (simp only:)
  then have ls: "length (stageNodes dataView d) = m - maxMeasure"
    by (simp del: upt_Suc)
  have d: "distinct (map node_id (nodes d))" if "length (hierarchyNodes dataView d) < maxMeasure"
    using ids_distinct[OF A[unfolded hierarchyNodes_def] B[unfolded stageNodes_def] D] that lh g
    by simp
  have B': "map node_id (stageNodes dataView d) =
        [maxMeasure + 1 ..< maxMeasure + 1 + length (stageNodes dataView d)]"
    using B m ls by (simp del: upt_Suc)
  have A': "map node_id (hierarchyNodes dataView d) = [1 ..< 1 + length (hierarchyNodes dataView d)]"
    using A g lh by (simp del: upt_Suc)
  show ?thesis
    using A' B' D d by simp
qed

theorem C10_node_ids_witness:
  "converter host0 rootSettings0 (View dvFunnel) = Inr dataFunnel \<and> nodes dataFunnel \<noteq> [] \<and>
   length (hierarchyNodes dvFunnel dataFunnel) < maxMeasure \<and>
   map node_id (nodes dataFunnel) = [0, 1, 10000001, 10000002] \<and>
   distinct (map node_id (nodes dataFunnel))"
proof -
  have c: "converter host0 rootSettings0 (View dvFunnel) = Inr dataFunnel" by (rule converter_funnel)
  have n: "nodes dataFunnel \<noteq> []" by (simp add: dataFunnel_def)
  have l: "length (hierarchyNodes dvFunnel dataFunnel) < maxMeasure"
    by (simp add: hierarchyNodes_def catCount_def dvFunnel_def dataFunnel_def isHierarchy_def
          maxMeasure_def)
  have i: "map node_id (nodes dataFunnel) = [0, 1, 10000001, 10000002]"
    by (simp add: dataFunnel_def)
  have d: "distinct (map node_id (nodes dataFunnel))"
    using C10_node_ids[OF c n] l by simp
  show ?thesis
    using c n l i d by simp
qed

end
